theory Spec2Isabelle
  imports Main "HOL-Library.AList" "HOL-Library.Sublist"
begin

section \<open>The GoChannel publish/subscribe engine\<close>

text \<open>
  The engine is one Go struct, \<^verbatim>\<open>GoChannel\<close>, with three exported operations
  (\<^verbatim>\<open>Publish\<close>, \<^verbatim>\<open>Subscribe\<close>, \<^verbatim>\<open>Close\<close>) and two helpers
  (\<^verbatim>\<open>sendMessage\<close>, \<^verbatim>\<open>sendMessageToSubscriber\<close>). The embedding keeps the
  struct as a record, passes it through every operation, and makes three things of the Go
  runtime explicit:
  \<^item> the channel heap: a subscriber's \<^verbatim>\<open>outputChannel\<close> is an address into a list of
    channel cells (capacity and closed flag);
  \<^item> the schedule: every \<^verbatim>\<open>select\<close> of the delivery loop waits on the consumer, on a
    timer and on the shutdown channel, all of which belong to other goroutines, so the case
    that a \<^verbatim>\<open>select\<close> takes is read from a list of events supplied by the caller;
  \<^item> the history: every lock operation, every append to a shared map, every message
    pushed into a queue and every closed channel is logged in order, so that statements
    about the order of effects are statements about a list.
  The logger and the cancellable context attached to each copy influence neither the
  control flow nor any result and are left out.
\<close>

subsection \<open>Messages\<close>

text \<open>
  Modelled from the spec: the message envelope (package \<^verbatim>\<open>message\<close>) is not part of the
  sources. The spec gives it a producer-assigned identifier, metadata, a payload and an
  acknowledgment state that is pending until exactly one of acked or nacked is signalled.
\<close>

datatype ack_state = NoAck | Ack | Nack

record message =
  UUID :: string
  Metadata :: "(string \<times> string) list"
  Payload :: string
  ackState :: ack_state

text \<open>
  Modelled from the spec: \<^verbatim>\<open>Copy\<close> of the message envelope, "an independent clone with
  a fresh acknowledgment state"; identifier, metadata and payload are those of the
  message copied.
\<close>

definition Copy :: "message \<Rightarrow> message" where
  "Copy m = m\<lparr>ackState := NoAck\<rparr>"

subsection \<open>Results, channels and the history\<close>

text \<open>
  \<^verbatim>\<open>time.Duration\<close> is a signed 64-bit count of nanoseconds; the engine only compares
  it with the sentinel, so an integer models it.
\<close>

definition noTimeout :: int where
  "noTimeout = - 1"

text \<open>The only error value the engine constructs (\<^verbatim>\<open>"Sending message %s timeouted after %s"\<close>).\<close>

datatype error = SendTimeouted string int

datatype panic =
    SendOnClosedChannel
  | CloseOfClosedChannel
  | CloseOfNilChannel
  | MakechanSizeOutOfRange
  | PanicErr error

text \<open>
  A call returns a value, panics, or never gets past a wait under the given schedule.
  A returned \<^verbatim>\<open>error\<close> is an \<open>error option\<close>: \<open>None\<close> is \<^verbatim>\<open>nil\<close>.
\<close>

datatype 'a outcome = Returns 'a | Panics panic | Blocks

datatype mutex = SubscribersLock | MessagesMutex

record subscriber =
  uuid :: string
  outputChannel :: nat

datatype action =
    Lock mutex
  | Unlock mutex
  | RLock mutex
  | RUnlock mutex
  | AppendMessages string "message list"
  | AppendSubscriber string subscriber
  | ChanSend nat message
  | ChanClose nat
  | CloseClosing

record chan =
  chan_cap :: int
  chan_closed :: bool

text \<open>
  The case a \<^verbatim>\<open>select\<close> takes. \<open>Received\<close>: the push into the subscriber's queue went
  through (there was room in the buffer or the consumer was reading). \<open>TimedOut\<close>: the
  timer channel fired. \<open>Closing\<close>: the shutdown channel \<^verbatim>\<open>g.closing\<close> was seen closed;
  it is closed by \<^verbatim>\<open>Close\<close>, which never takes a lock first, so it can become visible
  at any wait. \<open>Acked\<close> and \<open>Nacked\<close>: the consumer's verdict on the copy it was sent.
\<close>

datatype event = Received | TimedOut | Closing | Acked | Nacked

text \<open>The timer channel of one send attempt: \<^verbatim>\<open>time.After(d)\<close>, or a fresh channel nobody writes to.\<close>

datatype timer = After int | Never

subsection \<open>The engine\<close>

text \<open>
  The fields of the struct, in its order (the two mutexes appear in the history only),
  then the runtime's part: the channel heap, the goroutines started and not yet run, and
  the history. The two Go maps are association lists read with \<open>map_of\<close> and written
  with \<open>AList.update\<close>.
\<close>

record GoChannel =
  sendTimeout :: int
  outputChannelBuffer :: int
  subscribers :: "(string \<times> subscriber list) list"
  closed :: bool
  closing :: bool
  persistent :: bool
  messages :: "(string \<times> message list) list"
  chans :: "chan list"
  goroutines :: "(string \<times> subscriber) list"
  history :: "action list"

definition log :: "action \<Rightarrow> GoChannel \<Rightarrow> GoChannel" where
  "log a g = g\<lparr>history := history g @ [a]\<rparr>"

text \<open>Reading a Go map at a missing key gives the zero value, here the nil slice.\<close>

definition index :: "(string \<times> 'a list) list \<Rightarrow> string \<Rightarrow> 'a list" where
  "index m k = (case map_of m k of None \<Rightarrow> [] | Some v \<Rightarrow> v)"

definition chan_at :: "GoChannel \<Rightarrow> nat \<Rightarrow> chan option" where
  "chan_at g a = (if a < length (chans g) then Some (chans g ! a) else None)"

text \<open>
  \<^verbatim>\<open>make(chan T, n)\<close> panics with "makechan: size out of range" on a negative size and
  on a size the runtime refuses. The largest size it grants is not part of the sources
  and is the parameter \<open>maxCap\<close>: in the Go runtime it is at most
  \<^verbatim>\<open>(maxAlloc - hchanSize) / elem.size\<close>, constants of the Go version and the platform, and
  it is lower where the process cannot get the memory (the runtime then ends the process
  with a fatal error; the model gives both refusals the same outcome). A size that is
  granted gives a new open cell.
\<close>

definition make_chan :: "int \<Rightarrow> GoChannel \<Rightarrow> int \<Rightarrow> (nat \<times> GoChannel) option" where
  "make_chan maxCap g n =
     (if n < 0 \<or> maxCap < n then None
      else Some (length (chans g), g\<lparr>chans := chans g @ [\<lparr>chan_cap = n, chan_closed = False\<rparr>]\<rparr>))"

text \<open>\<^verbatim>\<open>close(c)\<close> panics on a nil channel and on a channel that is closed already.\<close>

definition close_chan :: "GoChannel \<Rightarrow> nat \<Rightarrow> unit outcome \<times> GoChannel" where
  "close_chan g a =
     (case chan_at g a of
        None \<Rightarrow> (Panics CloseOfNilChannel, g)
      | Some c \<Rightarrow>
          if chan_closed c then (Panics CloseOfClosedChannel, g)
          else (Returns (), log (ChanClose a) (g\<lparr>chans := (chans g)[a := c\<lparr>chan_closed := True\<rparr>]\<rparr>)))"

definition NewGoChannel :: "int \<Rightarrow> int \<Rightarrow> GoChannel" where
  "NewGoChannel buffer timeout =
     \<lparr>sendTimeout = timeout, outputChannelBuffer = buffer, subscribers = [],
      closed = False, closing = False, persistent = False, messages = [],
      chans = [], goroutines = [], history = []\<rparr>"

definition NewPersistentGoChannel :: "int \<Rightarrow> int \<Rightarrow> GoChannel" where
  "NewPersistentGoChannel buffer timeout =
     \<lparr>sendTimeout = timeout, outputChannelBuffer = buffer, subscribers = [],
      closed = False, closing = False, persistent = True, messages = [],
      chans = [], goroutines = [], history = []\<rparr>"

subsection \<open>Delivery to one subscriber\<close>

text \<open>
  One round of the loop \<^verbatim>\<open>SendToSubscriber\<close> copies the original message, builds the
  timer, and waits in the first \<^verbatim>\<open>select\<close>: the push, the timer, or shutdown. A push
  on a closed queue panics when its case is taken; a push on a nil channel and a timer
  that is the fresh channel never become ready. After the push the second \<^verbatim>\<open>select\<close>
  waits for ack, nack or shutdown; it has no timer case. A nack starts the next round
  with the same \<open>msg\<close>. When the schedule ends, or names a case the \<^verbatim>\<open>select\<close> cannot
  take, the call stays blocked.
\<close>

fun sendMessageToSubscriber ::
  "GoChannel \<Rightarrow> message \<Rightarrow> subscriber \<Rightarrow> int \<Rightarrow> event list
     \<Rightarrow> error option outcome \<times> GoChannel \<times> event list" where
  "sendMessageToSubscriber g msg s t [] = (Blocks, g, [])"
| "sendMessageToSubscriber g msg s t (e # es) =
     (let msgToSend = Copy msg;
          timeout = (if t \<noteq> noTimeout then After t else Never)
      in case e of
           Received \<Rightarrow>
             (case chan_at g (outputChannel s) of
                None \<Rightarrow> (Blocks, g, e # es)
              | Some c \<Rightarrow>
                  if chan_closed c then (Panics SendOnClosedChannel, g, es)
                  else
                    (let g' = log (ChanSend (outputChannel s) msgToSend) g
                     in case es of
                          [] \<Rightarrow> (Blocks, g', [])
                        | a # es' \<Rightarrow>
                            (case a of
                               Acked \<Rightarrow> (Returns None, g', es')
                             | Nacked \<Rightarrow> sendMessageToSubscriber g' msg s t es'
                             | Closing \<Rightarrow> (Returns None, g', es')
                             | Received \<Rightarrow> (Blocks, g', es)
                             | TimedOut \<Rightarrow> (Blocks, g', es))))
         | TimedOut \<Rightarrow>
             (case timeout of
                After d \<Rightarrow> (Returns (Some (SendTimeouted (UUID msgToSend) t)), g, es)
              | Never \<Rightarrow> (Blocks, g, e # es))
         | Closing \<Rightarrow> (Returns None, g, es)
         | Acked \<Rightarrow> (Blocks, g, e # es)
         | Nacked \<Rightarrow> (Blocks, g, e # es))"

subsection \<open>Delivery of one message, and Publish\<close>

text \<open>
  The loop of \<^verbatim>\<open>sendMessage\<close> over the topic's subscribers, in the order of the slice:
  the first result that is not \<^verbatim>\<open>nil\<close> ends it.
\<close>

fun sendMessage_loop ::
  "GoChannel \<Rightarrow> message \<Rightarrow> subscriber list \<Rightarrow> event list
     \<Rightarrow> error option outcome \<times> GoChannel \<times> event list" where
  "sendMessage_loop g msg [] sc = (Returns None, g, sc)"
| "sendMessage_loop g msg (s # ss) sc =
     (case sendMessageToSubscriber g msg s (sendTimeout g) sc of
        (Returns None, g', sc') \<Rightarrow> sendMessage_loop g' msg ss sc'
      | (r, g', sc') \<Rightarrow> (r, g', sc'))"

text \<open>
  \<^verbatim>\<open>sendMessage\<close> holds the registry's read lock for the whole loop. The deferred
  unlock runs when the function returns or panics, not while it is blocked.
\<close>

definition sendMessage ::
  "GoChannel \<Rightarrow> string \<Rightarrow> message \<Rightarrow> event list
     \<Rightarrow> error option outcome \<times> GoChannel \<times> event list" where
  "sendMessage g topic msg sc =
     (let g1 = log (RLock SubscribersLock) g
      in case map_of (subscribers g1) topic of
           None \<Rightarrow> (Returns None, log (RUnlock SubscribersLock) g1, sc)
         | Some subs \<Rightarrow>
             (case sendMessage_loop g1 msg subs sc of
                (Blocks, g2, sc') \<Rightarrow> (Blocks, g2, sc')
              | (r, g2, sc') \<Rightarrow> (r, log (RUnlock SubscribersLock) g2, sc')))"

text \<open>The first half of \<^verbatim>\<open>Publish\<close>: in persistent mode the whole batch is appended
  to the topic's log under the retention store's write lock.\<close>

definition Publish_persist :: "GoChannel \<Rightarrow> string \<Rightarrow> message list \<Rightarrow> GoChannel" where
  "Publish_persist g topic msgs =
     (if persistent g then
        (let g1 = log (Lock MessagesMutex) g;
             g2 = (if map_of (messages g1) topic = None
                   then g1\<lparr>messages := AList.update topic [] (messages g1)\<rparr> else g1);
             g3 = log (AppendMessages topic msgs)
                    (g2\<lparr>messages := AList.update topic (index (messages g2) topic @ msgs) (messages g2)\<rparr>)
         in log (Unlock MessagesMutex) g3)
      else g)"

text \<open>The second half: the messages are delivered one after the other; the first error is returned.\<close>

fun Publish_loop ::
  "GoChannel \<Rightarrow> string \<Rightarrow> message list \<Rightarrow> event list
     \<Rightarrow> error option outcome \<times> GoChannel \<times> event list" where
  "Publish_loop g topic [] sc = (Returns None, g, sc)"
| "Publish_loop g topic (msg # msgs) sc =
     (case sendMessage g topic msg sc of
        (Returns None, g', sc') \<Rightarrow> Publish_loop g' topic msgs sc'
      | (r, g', sc') \<Rightarrow> (r, g', sc'))"

definition Publish ::
  "GoChannel \<Rightarrow> string \<Rightarrow> message list \<Rightarrow> event list
     \<Rightarrow> error option outcome \<times> GoChannel \<times> event list" where
  "Publish g topic msgs sc = Publish_loop (Publish_persist g topic msgs) topic msgs sc"

subsection \<open>Subscribe\<close>

text \<open>
  The replay loop of the goroutine: each retained message goes through
  \<^verbatim>\<open>sendMessageToSubscriber\<close> with \<^verbatim>\<open>noTimeout\<close>; an error makes the goroutine panic.
\<close>

fun Subscribe_replay ::
  "GoChannel \<Rightarrow> message list \<Rightarrow> subscriber \<Rightarrow> event list
     \<Rightarrow> unit outcome \<times> GoChannel \<times> event list" where
  "Subscribe_replay g [] s sc = (Returns (), g, sc)"
| "Subscribe_replay g (msg # msgs) s sc =
     (case sendMessageToSubscriber g msg s noTimeout sc of
        (Returns None, g', sc') \<Rightarrow> Subscribe_replay g' msgs s sc'
      | (Returns (Some err), g', sc') \<Rightarrow> (Panics (PanicErr err), g', sc')
      | (Panics p, g', sc') \<Rightarrow> (Panics p, g', sc')
      | (Blocks, g', sc') \<Rightarrow> (Blocks, g', sc'))"

text \<open>
  The body of the goroutine that \<^verbatim>\<open>Subscribe\<close> starts. The registry's write lock is
  taken before the retention store's read lock is given back; the subscriber is appended
  to the topic's slice after both; the deferred unlock of the registry comes last.
  A panic or a blocked wait in the replay happens before the registry lock is touched.
\<close>

definition Subscribe_goroutine ::
  "GoChannel \<Rightarrow> string \<Rightarrow> subscriber \<Rightarrow> event list
     \<Rightarrow> unit outcome \<times> GoChannel \<times> event list" where
  "Subscribe_goroutine g topic s sc =
     (let g1 = log (RLock MessagesMutex) g
      in case (if persistent g1 then
                 (case map_of (messages g1) topic of
                    Some msgs \<Rightarrow> Subscribe_replay g1 msgs s sc
                  | None \<Rightarrow> (Returns (), g1, sc))
               else (Returns (), g1, sc)) of
           (Returns u, g2, sc') \<Rightarrow>
             (let g3 = log (Lock SubscribersLock) g2;
                  g4 = log (RUnlock MessagesMutex) g3;
                  g5 = (if map_of (subscribers g4) topic = None
                        then g4\<lparr>subscribers := AList.update topic [] (subscribers g4)\<rparr> else g4);
                  g6 = log (AppendSubscriber topic s)
                         (g5\<lparr>subscribers :=
                               AList.update topic (index (subscribers g5) topic @ [s]) (subscribers g5)\<rparr>)
              in (Returns (), log (Unlock SubscribersLock) g6, sc'))
         | (r, g2, sc') \<Rightarrow> (r, g2, sc'))"

text \<open>
  \<^verbatim>\<open>Subscribe\<close> builds the subscriber (its identifier \<open>u\<close> is the random UUID), makes
  the queue with the configured capacity (\<open>maxCap\<close> is the largest capacity the runtime
  grants), starts the goroutine and returns the queue and a \<^verbatim>\<open>nil\<close> error. A channel
  value is an \<open>option\<close>: \<open>None\<close> is \<^verbatim>\<open>nil\<close>.
\<close>

definition Subscribe ::
  "int \<Rightarrow> GoChannel \<Rightarrow> string \<Rightarrow> string
     \<Rightarrow> (nat option \<times> error option) outcome \<times> GoChannel" where
  "Subscribe maxCap g topic u =
     (case make_chan maxCap g (outputChannelBuffer g) of
        None \<Rightarrow> (Panics MakechanSizeOutOfRange, g)
      | Some (c, g1) \<Rightarrow>
          (let s = \<lparr>uuid = u, outputChannel = c\<rparr>
           in (Returns (Some (outputChannel s), None), g1\<lparr>goroutines := goroutines g1 @ [(topic, s)]\<rparr>)))"

text \<open>The scheduler runs the oldest goroutine started and not yet run.\<close>

definition run_goroutine ::
  "GoChannel \<Rightarrow> event list \<Rightarrow> unit outcome \<times> GoChannel \<times> event list" where
  "run_goroutine g sc =
     (case goroutines g of
        [] \<Rightarrow> (Returns (), g, sc)
      | (topic, s) # rest \<Rightarrow> Subscribe_goroutine (g\<lparr>goroutines := rest\<rparr>) topic s sc)"

subsection \<open>Close\<close>

fun Close_subscribers :: "GoChannel \<Rightarrow> subscriber list \<Rightarrow> unit outcome \<times> GoChannel" where
  "Close_subscribers g [] = (Returns (), g)"
| "Close_subscribers g (s # ss) =
     (case close_chan g (outputChannel s) of
        (Returns u, g') \<Rightarrow> Close_subscribers g' ss
      | (r, g') \<Rightarrow> (r, g'))"

text \<open>Go visits the topics of the map in an unspecified order; the model takes the list's.\<close>

fun Close_topics ::
  "GoChannel \<Rightarrow> (string \<times> subscriber list) list \<Rightarrow> unit outcome \<times> GoChannel" where
  "Close_topics g [] = (Returns (), g)"
| "Close_topics g (ts # rest) =
     (case Close_subscribers g (snd ts) of
        (Returns u, g') \<Rightarrow> Close_topics g' rest
      | (r, g') \<Rightarrow> (r, g'))"

text \<open>
  \<^verbatim>\<open>Close\<close> returns at once when the flag is set. Otherwise it sets the flag, closes the
  shutdown channel, and closes every registered subscriber's queue under the registry's
  write lock, which the deferred unlock gives back on return and on panic.
\<close>

definition Close :: "GoChannel \<Rightarrow> error option outcome \<times> GoChannel" where
  "Close g =
     (if closed g then (Returns None, g)
      else
        (let g1 = g\<lparr>closed := True\<rparr>
         in if closing g1 then (Panics CloseOfClosedChannel, g1)
            else
              (let g2 = log CloseClosing (g1\<lparr>closing := True\<rparr>);
                   g3 = log (Lock SubscribersLock) g2
               in case Close_topics g3 (subscribers g3) of
                    (Returns u, g4) \<Rightarrow> (Returns None, log (Unlock SubscribersLock) g4)
                  | (Panics p, g4) \<Rightarrow> (Panics p, log (Unlock SubscribersLock) g4)
                  | (Blocks, g4) \<Rightarrow> (Blocks, g4))))"

subsection \<open>Notions used in the statements\<close>

text \<open>Several actions appended to the history at once.\<close>

definition logs :: "action list \<Rightarrow> GoChannel \<Rightarrow> GoChannel" where
  "logs h g = g\<lparr>history := history g @ h\<rparr>"

text \<open>The subscriber's queue is allocated and not closed.\<close>

definition open_chan :: "GoChannel \<Rightarrow> subscriber \<Rightarrow> bool" where
  "open_chan g s = (case chan_at g (outputChannel s) of None \<Rightarrow> False | Some c \<Rightarrow> \<not> chan_closed c)"

text \<open>The schedule of a consumer that receives and nacks \<open>n\<close> copies.\<close>

definition nacks :: "nat \<Rightarrow> event list" where
  "nacks n = concat (replicate n [Received, Nacked])"

subsection \<open>Example engines\<close>

text \<open>
  The largest queue capacity the runtime grants, here the bound of the Go runtime for a
  queue of pointers on a 64-bit platform (\<^verbatim>\<open>maxAlloc\<close> is \<open>2 ^ 48\<close>, \<^verbatim>\<open>hchanSize\<close> is 96,
  an element takes 8 bytes).
  A message, and the engine a program has after constructing it (persistent or not, with
  queue capacity 1 and the given send timeout), subscribing once to the topic
  \<open>''orders''\<close> and letting the subscription's goroutine run.
\<close>

definition ex_maxCap :: int where
  "ex_maxCap = 2 ^ 45 - 12"

definition ex_msg :: message where
  "ex_msg = \<lparr>UUID = ''m1'', Metadata = [], Payload = ''hello'', ackState = NoAck\<rparr>"

definition ex_engine :: "bool \<Rightarrow> int \<Rightarrow> GoChannel" where
  "ex_engine p t =
     fst (snd (run_goroutine
       (snd (Subscribe ex_maxCap ((if p then NewPersistentGoChannel else NewGoChannel) 1 t) ''orders'' ''u1'')) []))"

definition ex_sub :: subscriber where
  "ex_sub = \<lparr>uuid = ''u1'', outputChannel = 0\<rparr>"

text \<open>
  The schedule of a consumer that nacks \<open>n\<close> copies and acks the next one, and the pushes
  this causes.
\<close>

definition ack_after :: "nat \<Rightarrow> event list" where
  "ack_after n = nacks n @ [Received, Acked]"

definition copies_to :: "message \<Rightarrow> subscriber \<Rightarrow> nat \<Rightarrow> action list" where
  "copies_to msg s n = replicate (Suc n) (ChanSend (outputChannel s) (Copy msg))"

text \<open>
  A second subscription to the same topic: the engine right after \<^verbatim>\<open>Subscribe\<close> returned
  (the goroutine is started, not run), and after its goroutine ran.
\<close>

definition ex_sub2 :: subscriber where
  "ex_sub2 = \<lparr>uuid = ''u2'', outputChannel = 1\<rparr>"

definition ex_pending :: "int \<Rightarrow> GoChannel" where
  "ex_pending t = snd (Subscribe ex_maxCap (ex_engine False t) ''orders'' ''u2'')"

definition ex_engine2 :: "int \<Rightarrow> GoChannel" where
  "ex_engine2 t = fst (snd (run_goroutine (ex_pending t) []))"

text \<open>Two more messages for publish calls of several messages.\<close>

definition ex_msg2 :: message where
  "ex_msg2 = \<lparr>UUID = ''m2'', Metadata = [], Payload = ''again'', ackState = NoAck\<rparr>"

definition ex_msg3 :: message where
  "ex_msg3 = \<lparr>UUID = ''m3'', Metadata = [], Payload = ''bye'', ackState = NoAck\<rparr>"

text \<open>
  The subscriber that \<^verbatim>\<open>Subscribe\<close> builds on \<open>g\<close> (its queue is the next free cell),
  the messages the goroutine replays for a topic, and the schedule of a consumer that
  receives and acks each of them.
\<close>

definition new_subscriber :: "GoChannel \<Rightarrow> string \<Rightarrow> subscriber" where
  "new_subscriber g u = \<lparr>uuid = u, outputChannel = length (chans g)\<rparr>"

definition retained :: "GoChannel \<Rightarrow> string \<Rightarrow> message list" where
  "retained g topic = (if persistent g then index (messages g) topic else [])"

definition acks_all :: "message list \<Rightarrow> event list" where
  "acks_all msgs = concat (map (\<lambda>m. [Received, Acked]) msgs)"

text \<open>A persistent engine on which one message was published before anybody subscribed.\<close>

definition ex_retaining :: GoChannel where
  "ex_retaining = fst (snd (Publish (NewPersistentGoChannel 1 (- 1)) ''orders'' [ex_msg] []))"

text \<open>The persistent example engine with send timeout 0 (the timer fires at once) after \<^verbatim>\<open>Close\<close>.\<close>

definition ex_closed :: GoChannel where
  "ex_closed = snd (Close (ex_engine True 0))"

text \<open>
  Order in a history: \<open>happens_before a b h\<close> holds when \<open>b\<close> occurs in \<open>h\<close> after the first
  occurrence of \<open>a\<close>. \<open>since g g'\<close> is what was logged between two states of the engine.
\<close>

fun happens_before :: "action \<Rightarrow> action \<Rightarrow> action list \<Rightarrow> bool" where
  "happens_before a b [] = False"
| "happens_before a b (x # h) = (if x = a then b \<in> set h else happens_before a b h)"

definition since :: "GoChannel \<Rightarrow> GoChannel \<Rightarrow> action list" where
  "since g g' = drop (length (history g)) (history g')"

text \<open>
  A history respects the two \<^verbatim>\<open>sync.RWMutex\<close>es when every write lock is taken on a free
  mutex, every read lock on a mutex no writer holds, and every unlock releases a lock that
  is held. The state of a mutex is its number of readers and whether a writer holds it.
\<close>

fun legal :: "(mutex \<Rightarrow> nat \<times> bool) \<Rightarrow> action list \<Rightarrow> bool" where
  "legal st [] = True"
| "legal st (Lock m # h) = (st m = (0, False) \<and> legal (st(m := (0, True))) h)"
| "legal st (Unlock m # h) = (snd (st m) \<and> legal (st(m := (0, False))) h)"
| "legal st (RLock m # h) = (\<not> snd (st m) \<and> legal (st(m := (Suc (fst (st m)), False))) h)"
| "legal st (RUnlock m # h) = (0 < fst (st m) \<and> legal (st(m := (fst (st m) - 1, False))) h)"
| "legal st (a # h) = legal st h"

text \<open>
  The engine \<open>ex_retaining\<close> after \<^verbatim>\<open>Subscribe\<close> returned, at the moment the scheduler
  takes the goroutine, and after the goroutine ran with a consumer that acks the replayed
  message. Then a race: a publisher has appended a message to the retention log (the
  first half of \<^verbatim>\<open>Publish\<close>, which gives the retention lock back), a subscription's
  goroutine runs to its end, and the publisher goes on with the delivery.
\<close>

definition ex_subscribing :: GoChannel where
  "ex_subscribing = (snd (Subscribe ex_maxCap ex_retaining ''orders'' ''u1''))\<lparr>goroutines := []\<rparr>"

definition ex_subscribed :: GoChannel where
  "ex_subscribed =
     fst (snd (run_goroutine (snd (Subscribe ex_maxCap ex_retaining ''orders'' ''u1'')) [Received, Acked]))"

definition ex_race :: GoChannel where
  "ex_race =
     fst (snd (Publish_loop
       (fst (snd (run_goroutine
          (snd (Subscribe ex_maxCap (Publish_persist (NewPersistentGoChannel 1 (- 1)) ''orders'' [ex_msg])
                  ''orders'' ''u1''))
          [Received, Acked])))
       ''orders'' [ex_msg] [Received, Acked]))"

section \<open>Properties\<close>

subsection \<open>The history and the frame of a delivery\<close>

lemma logs_Nil [simp]: "logs [] g = g" by (simp add: logs_def)
lemma logs_logs [simp]: "logs h2 (logs h1 g) = logs (h1 @ h2) g" by (simp add: logs_def)
lemma log_logs: "log a g = logs [a] g" by (simp add: log_def logs_def)

lemma logs_fields [simp]:
  "sendTimeout (logs h g) = sendTimeout g"
  "outputChannelBuffer (logs h g) = outputChannelBuffer g"
  "subscribers (logs h g) = subscribers g"
  "closed (logs h g) = closed g"
  "closing (logs h g) = closing g"
  "persistent (logs h g) = persistent g"
  "messages (logs h g) = messages g"
  "chans (logs h g) = chans g"
  "goroutines (logs h g) = goroutines g"
  "history (logs h g) = history g @ h"
  by (simp_all add: logs_def)

lemma chan_at_logs [simp]: "chan_at (logs h g) a = chan_at g a"
  by (simp add: chan_at_def)

lemma open_chan_logs [simp]: "open_chan (logs h g) s = open_chan g s"
  by (simp add: open_chan_def)

lemma sMTS_frame:
  "sendMessageToSubscriber g msg s t sc = (r, g', sc') \<Longrightarrow>
     \<exists>k. g' = logs (replicate k (ChanSend (outputChannel s) (Copy msg))) g"
proof (induction g msg s t sc arbitrary: r g' sc' rule: sendMessageToSubscriber.induct)
  case (1 g msg s t)
  then show ?case by (auto intro: exI [of _ 0])
next
  case (2 g msg s t e es)
  show ?case
  proof (cases e)
    case Received
    show ?thesis
    proof (cases "chan_at g (outputChannel s)")
      case None
      with 2(2) Received show ?thesis by (auto intro: exI [of _ 0])
    next
      case (Some c)
      show ?thesis
      proof (cases "chan_closed c")
        case True
        with 2(2) Received Some show ?thesis by (auto intro: exI [of _ 0])
      next
        case False
        let ?g = "log (ChanSend (outputChannel s) (Copy msg)) g"
        have one: "?g = logs (replicate 1 (ChanSend (outputChannel s) (Copy msg))) g"
          by (simp add: log_logs)
        show ?thesis
        proof (cases es)
          case Nil
          with 2(2) Received Some False have "g' = ?g" by simp
          with one show ?thesis by blast
        next
          case (Cons a es')
          show ?thesis
          proof (cases a)
            case Nacked
            from 2(2) Received Some False Cons Nacked
            have "sendMessageToSubscriber ?g msg s t es' = (r, g', sc')" by simp
            from 2(1) [OF refl refl Received Some False refl Cons Nacked this]
            obtain k where "g' = logs (replicate k (ChanSend (outputChannel s) (Copy msg))) ?g" by blast
            then have "g' = logs (replicate (Suc k) (ChanSend (outputChannel s) (Copy msg))) g"
              by (simp add: log_logs)
            then show ?thesis by blast
          next
            case Received
            with 2(2) \<open>e = Received\<close> Some False Cons have "g' = ?g" by simp
            with one show ?thesis by blast
          next
            case TimedOut
            with 2(2) \<open>e = Received\<close> Some False Cons have "g' = ?g" by simp
            with one show ?thesis by blast
          next
            case Closing
            with 2(2) \<open>e = Received\<close> Some False Cons have "g' = ?g" by simp
            with one show ?thesis by blast
          next
            case Acked
            with 2(2) \<open>e = Received\<close> Some False Cons have "g' = ?g" by simp
            with one show ?thesis by blast
          qed
        qed
      qed
    qed
  qed (use 2(2) in \<open>auto intro: exI [of _ 0] split: if_splits\<close>)
qed

lemma sMTS_Closing:
  "sendMessageToSubscriber g msg s t (Closing # sc) = (Returns None, g, sc)"
  by simp

lemma sMTS_TimedOut:
  "t \<noteq> noTimeout \<Longrightarrow>
   sendMessageToSubscriber g msg s t (TimedOut # sc) = (Returns (Some (SendTimeouted (UUID msg) t)), g, sc)"
  by (simp add: Copy_def)

lemma sMTS_Received_Acked:
  "open_chan g s \<Longrightarrow>
   sendMessageToSubscriber g msg s t (Received # Acked # sc) =
     (Returns None, logs [ChanSend (outputChannel s) (Copy msg)] g, sc)"
  by (auto simp: open_chan_def log_logs split: option.splits)

lemma sMTS_Received_Closing:
  "open_chan g s \<Longrightarrow>
   sendMessageToSubscriber g msg s t (Received # Closing # sc) =
     (Returns None, logs [ChanSend (outputChannel s) (Copy msg)] g, sc)"
  by (auto simp: open_chan_def log_logs split: option.splits)

lemma sMTS_Received_Nacked:
  "open_chan g s \<Longrightarrow>
   sendMessageToSubscriber g msg s t (Received # Nacked # sc) =
     sendMessageToSubscriber (logs [ChanSend (outputChannel s) (Copy msg)] g) msg s t sc"
  by (auto simp: open_chan_def log_logs split: option.splits)

lemma nacks_Suc: "nacks (Suc n) @ sc = Received # Nacked # nacks n @ sc"
  by (simp add: nacks_def)

lemma sMTS_nacks:
  "open_chan g s \<Longrightarrow>
   sendMessageToSubscriber g msg s t (nacks n @ sc) =
     sendMessageToSubscriber (logs (replicate n (ChanSend (outputChannel s) (Copy msg))) g) msg s t sc"
proof (induction n arbitrary: g)
  case 0
  then show ?case by (simp add: nacks_def)
next
  case (Suc n)
  have "sendMessageToSubscriber g msg s t (nacks (Suc n) @ sc) =
        sendMessageToSubscriber (logs [ChanSend (outputChannel s) (Copy msg)] g) msg s t (nacks n @ sc)"
    using Suc.prems by (simp only: nacks_Suc sMTS_Received_Nacked)
  also have "\<dots> = sendMessageToSubscriber
        (logs (replicate n (ChanSend (outputChannel s) (Copy msg))) (logs [ChanSend (outputChannel s) (Copy msg)] g)) msg s t sc"
    using Suc.prems by (intro Suc.IH) simp
  finally show ?case by (simp add: replicate_append_same)
qed

lemma sMTS_noTimeout_no_error:
  "fst (sendMessageToSubscriber g msg s noTimeout sc) \<noteq> Returns (Some err)"
proof (induction g msg s "noTimeout" sc rule: sendMessageToSubscriber.induct)
  case (1 g msg s)
  then show ?case by simp
next
  case (2 g msg s e es)
  show ?case
  proof (cases e)
    case Received
    show ?thesis
    proof (cases "chan_at g (outputChannel s)")
      case None
      with Received show ?thesis by simp
    next
      case (Some c)
      show ?thesis
      proof (cases "chan_closed c")
        case True
        with Received Some show ?thesis by simp
      next
        case False
        show ?thesis
        proof (cases es)
          case Nil
          with Received Some False show ?thesis by simp
        next
          case (Cons a es')
          show ?thesis
          proof (cases a)
            case Nacked
            from 2 [OF refl refl Received Some False refl Cons Nacked]
            show ?thesis using Received Some False Cons Nacked by simp
          qed (use Received Some False Cons in simp_all)
        qed
      qed
    qed
  qed simp_all
qed

lemma sendMessage_loop_frame:
  "sendMessage_loop g msg ss sc = (r, g', sc') \<Longrightarrow> \<exists>h. g' = logs h g"
proof (induction ss arbitrary: g sc)
  case Nil
  then show ?case by (auto intro: exI [of _ "[]"])
next
  case (Cons s ss)
  obtain r1 g1 sc1 where one: "sendMessageToSubscriber g msg s (sendTimeout g) sc = (r1, g1, sc1)"
    by (metis prod_cases3)
  from sMTS_frame [OF one] obtain k where g1: "g1 = logs (replicate k (ChanSend (outputChannel s) (Copy msg))) g"
    by blast
  show ?case
  proof (cases "r1 = Returns None")
    case True
    with Cons.prems one have "sendMessage_loop g1 msg ss sc1 = (r, g', sc')" by simp
    from Cons.IH [OF this] g1 show ?thesis by auto
  next
    case False
    with Cons.prems one have "g' = g1"
      by (auto split: outcome.splits option.splits)
    with g1 show ?thesis by blast
  qed
qed

lemma sendMessage_frame:
  "sendMessage g topic msg sc = (r, g', sc') \<Longrightarrow> \<exists>h. g' = logs h g"
proof -
  assume a: "sendMessage g topic msg sc = (r, g', sc')"
  show ?thesis
  proof (cases "map_of (subscribers g) topic")
    case None
    with a have "g' = logs [RLock SubscribersLock, RUnlock SubscribersLock] g"
      by (auto simp: sendMessage_def log_logs Let_def)
    then show ?thesis by blast
  next
    case (Some ss)
    obtain r1 g1 sc1 where l: "sendMessage_loop (logs [RLock SubscribersLock] g) msg ss sc = (r1, g1, sc1)"
      by (metis prod_cases3)
    from sendMessage_loop_frame [OF l] obtain h where "g1 = logs h (logs [RLock SubscribersLock] g)" by blast
    with a Some l show ?thesis
      by (cases r1) (auto simp: sendMessage_def log_logs Let_def)
  qed
qed

lemma Publish_loop_frame:
  "Publish_loop g topic msgs sc = (r, g', sc') \<Longrightarrow> \<exists>h. g' = logs h g"
proof (induction msgs arbitrary: g sc)
  case Nil
  then show ?case by (auto intro: exI [of _ "[]"])
next
  case (Cons m msgs)
  obtain r1 g1 sc1 where one: "sendMessage g topic m sc = (r1, g1, sc1)"
    by (metis prod_cases3)
  from sendMessage_frame [OF one] obtain h where g1: "g1 = logs h g" by blast
  show ?case
  proof (cases "r1 = Returns None")
    case True
    with Cons.prems one have "Publish_loop g1 topic msgs sc1 = (r, g', sc')" by simp
    from Cons.IH [OF this] g1 show ?thesis by auto
  next
    case False
    with Cons.prems one have "g' = g1"
      by (auto split: outcome.splits option.splits)
    with g1 show ?thesis by blast
  qed
qed

lemma ex_engine_eq:
  "ex_engine p t =
    \<lparr>sendTimeout = t, outputChannelBuffer = 1,
     subscribers = [(''orders'', [\<lparr>uuid = ''u1'', outputChannel = 0\<rparr>])],
     closed = False, closing = False, persistent = p, messages = [],
     chans = [\<lparr>chan_cap = 1, chan_closed = False\<rparr>], goroutines = [],
     history = [RLock MessagesMutex, Lock SubscribersLock, RUnlock MessagesMutex,
        AppendSubscriber ''orders'' \<lparr>uuid = ''u1'', outputChannel = 0\<rparr>, Unlock SubscribersLock]\<rparr>"
  by (simp add: ex_engine_def NewGoChannel_def NewPersistentGoChannel_def Subscribe_def make_chan_def ex_maxCap_def
      run_goroutine_def Subscribe_goroutine_def log_def index_def)

subsection \<open>The send timeout\<close>

lemma sendMessage_loop_noTimeout_no_error:
  "sendTimeout g = noTimeout \<Longrightarrow> fst (sendMessage_loop g msg ss sc) \<noteq> Returns (Some err)"
proof (induction ss arbitrary: g sc)
  case Nil
  then show ?case by simp
next
  case (Cons s ss)
  obtain r1 g1 sc1 where one: "sendMessageToSubscriber g msg s (sendTimeout g) sc = (r1, g1, sc1)"
    by (metis prod_cases3)
  from sMTS_frame [OF one] Cons.prems have t: "sendTimeout g1 = noTimeout" by auto
  from sMTS_noTimeout_no_error [of g msg s sc err] one Cons.prems have ne: "r1 \<noteq> Returns (Some err)" by simp
  show ?case
  proof (cases "r1 = Returns None")
    case True
    with one Cons.IH [OF t] show ?thesis by simp
  next
    case False
    with one ne show ?thesis by (auto split: outcome.splits option.splits)
  qed
qed

lemma sendMessage_noTimeout_no_error:
  "sendTimeout g = noTimeout \<Longrightarrow> fst (sendMessage g topic msg sc) \<noteq> Returns (Some err)"
proof -
  assume a: "sendTimeout g = noTimeout"
  show ?thesis
  proof (cases "map_of (subscribers g) topic")
    case None
    then show ?thesis by (simp add: sendMessage_def log_logs Let_def)
  next
    case (Some ss)
    obtain r1 g1 sc1 where l: "sendMessage_loop (logs [RLock SubscribersLock] g) msg ss sc = (r1, g1, sc1)"
      by (metis prod_cases3)
    from sendMessage_loop_noTimeout_no_error [of "logs [RLock SubscribersLock] g" msg ss sc err] a l
    have "r1 \<noteq> Returns (Some err)" by simp
    with Some l show ?thesis
      by (cases r1) (auto simp: sendMessage_def log_logs Let_def)
  qed
qed

lemma Publish_loop_noTimeout_no_error:
  "sendTimeout g = noTimeout \<Longrightarrow> fst (Publish_loop g topic msgs sc) \<noteq> Returns (Some err)"
proof (induction msgs arbitrary: g sc)
  case Nil
  then show ?case by simp
next
  case (Cons m msgs)
  obtain r1 g1 sc1 where one: "sendMessage g topic m sc = (r1, g1, sc1)"
    by (metis prod_cases3)
  from sendMessage_frame [OF one] Cons.prems have t: "sendTimeout g1 = noTimeout" by auto
  from sendMessage_noTimeout_no_error [OF Cons.prems, of topic m sc err] one have ne: "r1 \<noteq> Returns (Some err)" by simp
  show ?case
  proof (cases "r1 = Returns None")
    case True
    with one Cons.IH [OF t] show ?thesis by simp
  next
    case False
    with one ne show ?thesis by (auto split: outcome.splits option.splits)
  qed
qed

lemma Publish_persist_sendTimeout [simp]: "sendTimeout (Publish_persist g topic msgs) = sendTimeout g"
  by (simp add: Publish_persist_def log_def Let_def)

text \<open>
  Claim C3, as amended. The timer of a send attempt is disabled by the sentinel only:
  on an engine whose send timeout is \<open>noTimeout\<close> (minus one), under every schedule,
  no send attempt, no delivery of a message and no publish call returns an error.
\<close>

theorem sentinel_timeout_never_times_out:
  assumes "sendTimeout g = noTimeout"
  shows "fst (sendMessageToSubscriber g msg s (sendTimeout g) sc) \<noteq> Returns (Some err)
       \<and> fst (sendMessage g topic msg sc) \<noteq> Returns (Some err)
       \<and> fst (Publish g topic msgs sc) \<noteq> Returns (Some err)"
  using assms sMTS_noTimeout_no_error [of g msg s sc err]
    sendMessage_noTimeout_no_error [of g topic msg sc err]
    Publish_loop_noTimeout_no_error [of "Publish_persist g topic msgs" topic msgs sc err]
  by (simp add: Publish_def)

theorem sentinel_timeout_never_times_out_witness:
  "sendTimeout (ex_engine False (- 1)) = noTimeout
   \<and> fst (Publish (ex_engine False (- 1)) ''orders'' [ex_msg] [TimedOut])
       \<noteq> Returns (Some (SendTimeouted ''m1'' (- 1)))"
proof -
  have h: "sendTimeout (ex_engine False (- 1)) = noTimeout"
    by (simp add: ex_engine_eq noTimeout_def)
  note c = sentinel_timeout_never_times_out [OF h, of ex_msg "\<lparr>uuid = ''u1'', outputChannel = 0\<rparr>"
      "[TimedOut]" "SendTimeouted ''m1'' (- 1)" "''orders''" "[ex_msg]"]
  from h c show ?thesis by blast
qed

text \<open>
  Claim C3 as stated fails: an engine configured with the negative timeout minus two
  arms the timer, and when the timer's case is taken the publish call returns the
  timeout error.
\<close>

theorem negative_timeout_times_out:
  "sendTimeout (ex_engine False (- 2)) < 0
   \<and> fst (Publish (ex_engine False (- 2)) ''orders'' [ex_msg] [TimedOut])
       = Returns (Some (SendTimeouted ''m1'' (- 2)))"
  by (simp add: ex_engine_eq Publish_def Publish_persist_def sendMessage_def log_def noTimeout_def ex_msg_def Copy_def)

subsection \<open>Shutdown seen during delivery\<close>

lemma sendMessage_loop_all_Closing:
  "sendMessage_loop g msg ss (replicate (length ss) Closing @ sc) = (Returns None, g, sc)"
  by (induction ss) simp_all

lemma sendMessage_all_Closing:
  "sendMessage g topic msg (replicate (length (index (subscribers g) topic)) Closing @ sc) =
     (Returns None, logs [RLock SubscribersLock, RUnlock SubscribersLock] g, sc)"
proof (cases "map_of (subscribers g) topic")
  case None
  then show ?thesis by (simp add: sendMessage_def index_def log_logs Let_def)
next
  case (Some ss)
  have "sendMessage_loop (logs [RLock SubscribersLock] g) msg ss (replicate (length ss) Closing @ sc)
          = (Returns None, logs [RLock SubscribersLock] g, sc)"
    by (rule sendMessage_loop_all_Closing)
  with Some show ?thesis by (simp add: sendMessage_def index_def log_logs Let_def)
qed

lemma Publish_loop_all_Closing:
  "Publish_loop g topic msgs (replicate (length msgs * length (index (subscribers g) topic)) Closing @ sc) =
     (Returns None,
      logs (concat (replicate (length msgs) [RLock SubscribersLock, RUnlock SubscribersLock])) g, sc)"
proof (induction msgs arbitrary: g)
  case Nil
  then show ?case by simp
next
  case (Cons m msgs)
  let ?k = "length (index (subscribers g) topic)"
  let ?g = "logs [RLock SubscribersLock, RUnlock SubscribersLock] g"
  have split: "replicate (length (m # msgs) * ?k) Closing @ sc
        = replicate ?k Closing @ (replicate (length msgs * ?k) Closing @ sc)"
    by (simp add: replicate_add)
  have "Publish_loop g topic (m # msgs) (replicate (length (m # msgs) * ?k) Closing @ sc)
        = Publish_loop ?g topic msgs (replicate (length msgs * ?k) Closing @ sc)"
    by (simp only: split Publish_loop.simps sendMessage_all_Closing) simp
  also have "\<dots> = (Returns None,
      logs (concat (replicate (length msgs) [RLock SubscribersLock, RUnlock SubscribersLock])) ?g, sc)"
    using Cons.IH [of ?g] by simp
  finally show ?case by simp
qed

lemma Publish_persist_subscribers [simp]: "subscribers (Publish_persist g topic msgs) = subscribers g"
  by (simp add: Publish_persist_def log_def Let_def)

text \<open>
  Claim C5. Whenever a wait of the delivery loop takes the shutdown case, delivery to that
  subscriber ends with a \<^verbatim>\<open>nil\<close> result and never an error: at the wait for the push,
  in the first round or after any number of nacked copies, and at the wait for the
  verdict on a pushed copy, where the result equals the one of an acknowledged delivery.
  The loop over the subscribers goes on with the next subscriber, and a publish call
  all of whose waits see the shutdown returns \<^verbatim>\<open>nil\<close>.
\<close>

theorem shutdown_abandons_delivery_with_nil:
  "sendMessageToSubscriber g msg s t (Closing # sc) = (Returns None, g, sc)
   \<and> (open_chan g s \<longrightarrow>
        sendMessageToSubscriber g msg s t (nacks n @ Closing # sc) =
          (Returns None, logs (replicate n (ChanSend (outputChannel s) (Copy msg))) g, sc)
      \<and> sendMessageToSubscriber g msg s t (nacks n @ Received # Closing # sc) =
          (Returns None, logs (replicate (Suc n) (ChanSend (outputChannel s) (Copy msg))) g, sc)
      \<and> sendMessageToSubscriber g msg s t (nacks n @ Received # Closing # sc) =
          sendMessageToSubscriber g msg s t (nacks n @ Received # Acked # sc))
   \<and> sendMessage_loop g msg (s # ss) (Closing # sc) = sendMessage_loop g msg ss sc
   \<and> fst (Publish g topic msgs
            (replicate (length msgs * length (index (subscribers g) topic)) Closing)) = Returns None"
proof -
  have a: "sendMessageToSubscriber g msg s t (Closing # sc) = (Returns None, g, sc)"
    by simp
  have b: "sendMessageToSubscriber g msg s t (nacks n @ Closing # sc) =
          (Returns None, logs (replicate n (ChanSend (outputChannel s) (Copy msg))) g, sc)"
    if "open_chan g s"
    using that by (simp add: sMTS_nacks sMTS_Closing del: sendMessageToSubscriber.simps)
  have c: "sendMessageToSubscriber g msg s t (nacks n @ Received # Closing # sc) =
          (Returns None, logs (replicate (Suc n) (ChanSend (outputChannel s) (Copy msg))) g, sc)"
    if "open_chan g s"
    using that by (simp add: sMTS_nacks sMTS_Received_Closing replicate_append_same del: sendMessageToSubscriber.simps)
  have d: "sendMessageToSubscriber g msg s t (nacks n @ Received # Acked # sc) =
          (Returns None, logs (replicate (Suc n) (ChanSend (outputChannel s) (Copy msg))) g, sc)"
    if "open_chan g s"
    using that by (simp add: sMTS_nacks sMTS_Received_Acked replicate_append_same del: sendMessageToSubscriber.simps)
  have e: "sendMessage_loop g msg (s # ss) (Closing # sc) = sendMessage_loop g msg ss sc"
    by simp
  have f: "fst (Publish g topic msgs
            (replicate (length msgs * length (index (subscribers g) topic)) Closing)) = Returns None"
    using Publish_loop_all_Closing [of "Publish_persist g topic msgs" topic msgs "[]"]
    by (simp add: Publish_def)
  from a b c d e f show ?thesis by simp
qed

theorem shutdown_abandons_delivery_with_nil_witness:
  "open_chan (ex_engine False 5) \<lparr>uuid = ''u1'', outputChannel = 0\<rparr>
   \<and> sendMessageToSubscriber (ex_engine False 5) ex_msg \<lparr>uuid = ''u1'', outputChannel = 0\<rparr> 5
        (nacks 1 @ Received # Closing # []) =
      (Returns None, logs (replicate (Suc 1) (ChanSend 0 (Copy ex_msg))) (ex_engine False 5), [])"
proof -
  have h: "open_chan (ex_engine False 5) \<lparr>uuid = ''u1'', outputChannel = 0\<rparr>"
    by (simp add: ex_engine_eq open_chan_def chan_at_def)
  note c = shutdown_abandons_delivery_with_nil [of "ex_engine False 5" ex_msg
      "\<lparr>uuid = ''u1'', outputChannel = 0\<rparr>" 5 "[]" 1 "[]" "''orders''" "[]"]
  from c h have "sendMessageToSubscriber (ex_engine False 5) ex_msg \<lparr>uuid = ''u1'', outputChannel = 0\<rparr> 5
        (nacks 1 @ Received # Closing # []) =
      (Returns None, logs (replicate (Suc 1) (ChanSend (outputChannel \<lparr>uuid = ''u1'', outputChannel = 0\<rparr>) (Copy ex_msg))) (ex_engine False 5), [])"
    by blast
  with h show ?thesis by simp
qed

subsection \<open>Nack and redelivery\<close>

lemma Publish_persist_chans [simp]: "chans (Publish_persist g topic msgs) = chans g"
  by (simp add: Publish_persist_def log_def Let_def)

lemma open_chan_Publish_persist [simp]: "open_chan (Publish_persist g topic msgs) s = open_chan g s"
  by (simp add: open_chan_def chan_at_def)

lemma sMTS_Received_only:
  "open_chan g s \<Longrightarrow> fst (sendMessageToSubscriber g msg s t [Received]) = Blocks"
  by (auto simp: open_chan_def split: option.splits)

lemma sMTS_prefix_blocks:
  "open_chan g s \<Longrightarrow> strict_prefix sc (nacks n @ [Received, Acked]) \<Longrightarrow>
   fst (sendMessageToSubscriber g msg s t sc) = Blocks"
proof (induction n arbitrary: g sc)
  case 0
  then have "sc = [] \<or> sc = [Received]"
    by (cases sc; cases "tl sc") (auto simp: nacks_def)
  with 0 show ?case by (auto simp: sMTS_Received_only simp del: sendMessageToSubscriber.simps(2))
next
  case (Suc n)
  from Suc.prems(2) have sp: "strict_prefix sc (Received # Nacked # (nacks n @ [Received, Acked]))"
    by (simp add: nacks_def)
  then consider "sc = []" | "sc = [Received]"
    | sc' where "sc = Received # Nacked # sc'" "strict_prefix sc' (nacks n @ [Received, Acked])"
    by (cases sc; cases "tl sc") auto
  then show ?case
  proof cases
    case 1
    then show ?thesis by simp
  next
    case 2
    with Suc.prems(1) show ?thesis by (simp add: sMTS_Received_only del: sendMessageToSubscriber.simps(2))
  next
    case 3
    have "open_chan (logs [ChanSend (outputChannel s) (Copy msg)] g) s"
      using Suc.prems(1) by simp
    from Suc.IH [OF this 3(2)] Suc.prems(1) 3(1) show ?thesis
      by (simp add: sMTS_Received_Nacked del: sendMessageToSubscriber.simps(2))
  qed
qed

lemma sMTS_nacks_then_ack:
  "open_chan g s \<Longrightarrow>
   sendMessageToSubscriber g msg s t (nacks n @ Received # Acked # sc) =
     (Returns None, logs (replicate (Suc n) (ChanSend (outputChannel s) (Copy msg))) g, sc)"
  by (simp add: sMTS_nacks sMTS_Received_Acked replicate_append_same del: sendMessageToSubscriber.simps)

lemma Publish_one_subscriber:
  assumes "map_of (subscribers g) topic = Some [s]"
  shows "Publish g topic [msg] sc =
     (case sendMessageToSubscriber (logs [RLock SubscribersLock] (Publish_persist g topic [msg])) msg s
             (sendTimeout g) sc of
        (Blocks, g', sc') \<Rightarrow> (Blocks, g', sc')
      | (r, g', sc') \<Rightarrow> (r, logs [RUnlock SubscribersLock] g', sc'))"
proof -
  obtain r g' sc' where one:
    "sendMessageToSubscriber (logs [RLock SubscribersLock] (Publish_persist g topic [msg])) msg s
             (sendTimeout g) sc = (r, g', sc')"
    by (metis prod_cases3)
  with assms show ?thesis
    by (cases r) (auto simp: Publish_def sendMessage_def log_logs Let_def split: option.splits)
qed

text \<open>
  Claim C2. A subscriber with an open queue that nacks \<open>n\<close> copies and acks the next one
  is sent \<open>n + 1\<close> copies, each of them \<open>Copy msg\<close> of the message passed to the
  delivery loop, whose acknowledgment state is fresh. A publish call of that message to a
  topic with this one subscriber returns \<^verbatim>\<open>nil\<close> on that schedule, and under every
  schedule that stops earlier (any strict prefix) it has not returned: it is still
  blocked in a wait.
\<close>

theorem nacked_copies_are_resent_until_acked:
  assumes "map_of (subscribers g) topic = Some [s]" and "open_chan g s"
  shows "sendMessageToSubscriber g msg s t (nacks n @ Received # Acked # sc) =
           (Returns None, logs (replicate (Suc n) (ChanSend (outputChannel s) (Copy msg))) g, sc)
       \<and> Publish g topic [msg] (nacks n @ [Received, Acked]) =
           (Returns None,
            logs ([RLock SubscribersLock] @ replicate (Suc n) (ChanSend (outputChannel s) (Copy msg))
                    @ [RUnlock SubscribersLock])
              (Publish_persist g topic [msg]), [])
       \<and> (\<forall>sc'. strict_prefix sc' (nacks n @ [Received, Acked]) \<longrightarrow>
              fst (Publish g topic [msg] sc') = Blocks)
       \<and> Copy msg = msg\<lparr>ackState := NoAck\<rparr>"
proof -
  let ?g = "logs [RLock SubscribersLock] (Publish_persist g topic [msg])"
  have o: "open_chan ?g s"
    using assms(2) by simp
  have a: "sendMessageToSubscriber g msg s t (nacks n @ Received # Acked # sc) =
           (Returns None, logs (replicate (Suc n) (ChanSend (outputChannel s) (Copy msg))) g, sc)"
    using assms(2) by (rule sMTS_nacks_then_ack)
  have b: "Publish g topic [msg] (nacks n @ [Received, Acked]) =
           (Returns None,
            logs ([RLock SubscribersLock] @ replicate (Suc n) (ChanSend (outputChannel s) (Copy msg))
                    @ [RUnlock SubscribersLock])
              (Publish_persist g topic [msg]), [])"
    using sMTS_nacks_then_ack [OF o, of msg "sendTimeout g" n "[]"]
    by (simp add: Publish_one_subscriber [OF assms(1)] del: sendMessageToSubscriber.simps)
  have c: "fst (Publish g topic [msg] sc') = Blocks"
    if "strict_prefix sc' (nacks n @ [Received, Acked])" for sc'
  proof -
    obtain r g' sc2 where one: "sendMessageToSubscriber ?g msg s (sendTimeout g) sc' = (r, g', sc2)"
      by (metis prod_cases3)
    with sMTS_prefix_blocks [OF o that, of msg "sendTimeout g"] have "r = Blocks" by simp
    with one show ?thesis by (simp add: Publish_one_subscriber [OF assms(1)])
  qed
  from a b c show ?thesis by (simp add: Copy_def)
qed

theorem nacked_copies_are_resent_until_acked_witness:
  "map_of (subscribers (ex_engine False (- 1))) ''orders'' = Some [ex_sub]
   \<and> open_chan (ex_engine False (- 1)) ex_sub
   \<and> Publish (ex_engine False (- 1)) ''orders'' [ex_msg] (nacks 2 @ [Received, Acked]) =
       (Returns None,
        logs ([RLock SubscribersLock] @ replicate (Suc 2) (ChanSend (outputChannel ex_sub) (Copy ex_msg))
                @ [RUnlock SubscribersLock])
          (Publish_persist (ex_engine False (- 1)) ''orders'' [ex_msg]), [])
   \<and> strict_prefix [Received, Nacked, Received] (nacks 2 @ [Received, Acked])
   \<and> fst (Publish (ex_engine False (- 1)) ''orders'' [ex_msg] [Received, Nacked, Received]) = Blocks"
proof -
  have h1: "map_of (subscribers (ex_engine False (- 1))) ''orders'' = Some [ex_sub]"
    by (simp add: ex_engine_eq ex_sub_def)
  have h2: "open_chan (ex_engine False (- 1)) ex_sub"
    by (simp add: ex_engine_eq ex_sub_def open_chan_def chan_at_def)
  have h3: "strict_prefix [Received, Nacked, Received] (nacks 2 @ [Received, Acked])"
    by (simp add: nacks_def numeral_2_eq_2)
  note c = nacked_copies_are_resent_until_acked [OF h1 h2, of ex_msg 0 2 "[]"]
  from c h3 have "fst (Publish (ex_engine False (- 1)) ''orders'' [ex_msg] [Received, Nacked, Received]) = Blocks"
    by blast
  with c h1 h2 h3 show ?thesis by blast
qed

subsection \<open>Order of delivery among subscribers\<close>

lemma sendMessage_loop_append:
  "sendMessage_loop g msg (ss1 @ ss2) sc =
     (case sendMessage_loop g msg ss1 sc of
        (Returns None, g', sc') \<Rightarrow> sendMessage_loop g' msg ss2 sc'
      | (r, g', sc') \<Rightarrow> (r, g', sc'))"
proof (induction ss1 arbitrary: g sc)
  case Nil
  then show ?case by simp
next
  case (Cons s ss1)
  obtain r g1 sc1 where one: "sendMessageToSubscriber g msg s (sendTimeout g) sc = (r, g1, sc1)"
    by (metis prod_cases3)
  then show ?case
    by (cases r) (auto simp: Cons.IH split: option.splits)
qed

lemma sendMessage_loop_all_ack:
  "length ns = length ss \<Longrightarrow> list_all (open_chan g) ss \<Longrightarrow>
   sendMessage_loop g msg ss (concat (map ack_after ns) @ sc) =
     (Returns None, logs (concat (map2 (copies_to msg) ss ns)) g, sc)"
proof (induction ns ss arbitrary: g rule: list_induct2)
  case Nil
  then show ?case by simp
next
  case (Cons n ns s ss)
  let ?g = "logs (copies_to msg s n) g"
  from Cons.prems have o: "open_chan g s" and os: "list_all (open_chan ?g) ss"
    by (simp_all add: list_all_iff)
  have "sendMessageToSubscriber g msg s (sendTimeout g) (ack_after n @ concat (map ack_after ns) @ sc)
        = (Returns None, ?g, concat (map ack_after ns) @ sc)"
    using sMTS_nacks_then_ack [OF o, of msg "sendTimeout g" n "concat (map ack_after ns) @ sc"]
    by (simp add: ack_after_def copies_to_def del: sendMessageToSubscriber.simps)
  then have "sendMessage_loop g msg (s # ss) (concat (map ack_after (n # ns)) @ sc)
        = sendMessage_loop ?g msg ss (concat (map ack_after ns) @ sc)"
    by (simp del: sendMessageToSubscriber.simps)
  also have "\<dots> = (Returns None, logs (concat (map2 (copies_to msg) ss ns)) ?g, sc)"
    by (rule Cons.IH [OF os])
  finally show ?case by simp
qed

lemma sendMessage_loop_timeout_aborts:
  assumes "sendMessage_loop g msg ss1 sc = (Returns None, g1, TimedOut # sc1)"
      and "sendTimeout g \<noteq> noTimeout"
  shows "sendMessage_loop g msg (ss1 @ s # ss2) sc =
           (Returns (Some (SendTimeouted (UUID msg) (sendTimeout g))), g1, sc1)"
proof -
  from sendMessage_loop_frame [OF assms(1)] have t: "sendTimeout g1 = sendTimeout g" by auto
  with assms(2) have "sendMessageToSubscriber g1 msg s (sendTimeout g1) (TimedOut # sc1)
        = (Returns (Some (SendTimeouted (UUID msg) (sendTimeout g))), g1, sc1)"
    by (simp add: sMTS_TimedOut del: sendMessageToSubscriber.simps)
  with assms(1) show ?thesis
    by (simp add: sendMessage_loop_append del: sendMessageToSubscriber.simps)
qed

lemma index_update [simp]: "index (AList.update k v m) k = v"
  by (simp add: index_def update_conv')

lemma Subscribe_replay_frame:
  "Subscribe_replay g msgs s sc = (r, g', sc') \<Longrightarrow>
     \<exists>h. g' = logs h g \<and> (\<forall>a\<in>set h. \<exists>m\<in>set msgs. a = ChanSend (outputChannel s) (Copy m))"
proof (induction msgs arbitrary: g sc)
  case Nil
  then show ?case by (auto intro: exI [of _ "[]"])
next
  case (Cons m msgs)
  obtain r1 g1 sc1 where one: "sendMessageToSubscriber g m s noTimeout sc = (r1, g1, sc1)"
    by (metis prod_cases3)
  from sMTS_frame [OF one] obtain k where g1: "g1 = logs (replicate k (ChanSend (outputChannel s) (Copy m))) g"
    by blast
  show ?case
  proof (cases "r1 = Returns None")
    case True
    with Cons.prems one have "Subscribe_replay g1 msgs s sc1 = (r, g', sc')" by simp
    from Cons.IH [OF this] obtain h where
      h: "g' = logs h g1" "\<forall>a\<in>set h. \<exists>m\<in>set msgs. a = ChanSend (outputChannel s) (Copy m)"
      by blast
    let ?h = "replicate k (ChanSend (outputChannel s) (Copy m)) @ h"
    from h g1 have "g' = logs ?h g \<and> (\<forall>a\<in>set ?h. \<exists>m'\<in>set (m # msgs). a = ChanSend (outputChannel s) (Copy m'))"
      by auto
    then show ?thesis by blast
  next
    case False
    with Cons.prems one have "g' = g1"
      by (auto split: outcome.splits option.splits)
    with g1 have "g' = logs (replicate k (ChanSend (outputChannel s) (Copy m))) g
        \<and> (\<forall>a\<in>set (replicate k (ChanSend (outputChannel s) (Copy m))).
              \<exists>m'\<in>set (m # msgs). a = ChanSend (outputChannel s) (Copy m'))"
      by auto
    then show ?thesis by blast
  qed
qed

lemma Subscribe_goroutine_unfold:
  "Subscribe_goroutine g topic s sc =
     (case Subscribe_replay (logs [RLock MessagesMutex] g)
             (if persistent g then index (messages g) topic else []) s sc of
        (Returns u, g2, sc') \<Rightarrow>
          (Returns (),
           logs [Lock SubscribersLock, RUnlock MessagesMutex, AppendSubscriber topic s,
                 Unlock SubscribersLock]
             (g2\<lparr>subscribers := AList.update topic (index (subscribers g2) topic @ [s]) (subscribers g2)\<rparr>),
           sc')
      | (r, g2, sc') \<Rightarrow> (r, g2, sc'))"
proof -
  let ?g1 = "logs [RLock MessagesMutex] g"
  let ?msgs = "if persistent g then index (messages g) topic else []"
  have rep: "(if persistent ?g1 then
                 (case map_of (messages ?g1) topic of
                    Some msgs \<Rightarrow> Subscribe_replay ?g1 msgs s sc
                  | None \<Rightarrow> (Returns (), ?g1, sc))
               else (Returns (), ?g1, sc)) = Subscribe_replay ?g1 ?msgs s sc"
    by (simp add: index_def split: option.splits)
  obtain r g2 sc2 where res: "Subscribe_replay ?g1 ?msgs s sc = (r, g2, sc2)"
    by (metis prod_cases3)
  have "Subscribe_goroutine g topic s sc =
     (case Subscribe_replay ?g1 ?msgs s sc of
           (Returns u, g2, sc') \<Rightarrow>
             (let g3 = log (Lock SubscribersLock) g2;
                  g4 = log (RUnlock MessagesMutex) g3;
                  g5 = (if map_of (subscribers g4) topic = None
                        then g4\<lparr>subscribers := AList.update topic [] (subscribers g4)\<rparr> else g4);
                  g6 = log (AppendSubscriber topic s)
                         (g5\<lparr>subscribers :=
                               AList.update topic (index (subscribers g5) topic @ [s]) (subscribers g5)\<rparr>)
              in (Returns (), log (Unlock SubscribersLock) g6, sc'))
         | (r, g2, sc') \<Rightarrow> (r, g2, sc'))"
    unfolding Subscribe_goroutine_def log_logs [symmetric] Let_def rep [unfolded log_logs [symmetric]] ..
  also have "\<dots> = (case Subscribe_replay ?g1 ?msgs s sc of
        (Returns u, g2, sc') \<Rightarrow>
          (Returns (),
           logs [Lock SubscribersLock, RUnlock MessagesMutex, AppendSubscriber topic s,
                 Unlock SubscribersLock]
             (g2\<lparr>subscribers := AList.update topic (index (subscribers g2) topic @ [s]) (subscribers g2)\<rparr>),
           sc')
      | (r, g2, sc') \<Rightarrow> (r, g2, sc'))"
    unfolding res
    by (cases r) (auto simp: Let_def log_def logs_def index_def update_conv' AList.update_last)
  finally show ?thesis .
qed

lemma Subscribe_goroutine_Returns:
  assumes "Subscribe_goroutine g topic s sc = (Returns u, g', sc')"
  shows "\<exists>h. (\<forall>a\<in>set h. \<exists>m\<in>set (index (messages g) topic). a = ChanSend (outputChannel s) (Copy m))
           \<and> g' = logs ([RLock MessagesMutex] @ h @
                     [Lock SubscribersLock, RUnlock MessagesMutex, AppendSubscriber topic s,
                      Unlock SubscribersLock])
                    (g\<lparr>subscribers := AList.update topic (index (subscribers g) topic @ [s]) (subscribers g)\<rparr>)"
proof -
  let ?g1 = "logs [RLock MessagesMutex] g"
  let ?msgs = "if persistent g then index (messages g) topic else []"
  obtain r g2 sc2 where res: "Subscribe_replay ?g1 ?msgs s sc = (r, g2, sc2)"
    by (metis prod_cases3)
  from Subscribe_replay_frame [OF res] obtain h where h: "g2 = logs h ?g1"
      "\<forall>a\<in>set h. \<exists>m\<in>set ?msgs. a = ChanSend (outputChannel s) (Copy m)"
    by blast
  from h(2) have h2: "\<forall>a\<in>set h. \<exists>m\<in>set (index (messages g) topic). a = ChanSend (outputChannel s) (Copy m)"
    by (auto split: if_splits)
  from assms res h(1) have "g' = logs ([RLock MessagesMutex] @ h @
                     [Lock SubscribersLock, RUnlock MessagesMutex, AppendSubscriber topic s,
                      Unlock SubscribersLock])
                    (g\<lparr>subscribers := AList.update topic (index (subscribers g) topic @ [s]) (subscribers g)\<rparr>)"
    by (cases r) (auto simp: Subscribe_goroutine_unfold logs_def)
  with h2 show ?thesis by blast
qed

lemma Subscribe_goroutine_registers:
  assumes "Subscribe_goroutine g topic s sc = (Returns u, g', sc')"
  shows "index (subscribers g') topic = index (subscribers g) topic @ [s]"
  using Subscribe_goroutine_Returns [OF assms] by auto

lemma ex_pending_eq:
  "ex_pending t =
    \<lparr>sendTimeout = t, outputChannelBuffer = 1,
     subscribers = [(''orders'', [ex_sub])],
     closed = False, closing = False, persistent = False, messages = [],
     chans = [\<lparr>chan_cap = 1, chan_closed = False\<rparr>, \<lparr>chan_cap = 1, chan_closed = False\<rparr>],
     goroutines = [(''orders'', ex_sub2)],
     history = [RLock MessagesMutex, Lock SubscribersLock, RUnlock MessagesMutex,
        AppendSubscriber ''orders'' ex_sub, Unlock SubscribersLock]\<rparr>"
  by (simp add: ex_pending_def ex_engine_eq Subscribe_def make_chan_def ex_maxCap_def ex_sub_def ex_sub2_def)

lemma ex_engine2_eq:
  "ex_engine2 t =
    \<lparr>sendTimeout = t, outputChannelBuffer = 1,
     subscribers = [(''orders'', [ex_sub, ex_sub2])],
     closed = False, closing = False, persistent = False, messages = [],
     chans = [\<lparr>chan_cap = 1, chan_closed = False\<rparr>, \<lparr>chan_cap = 1, chan_closed = False\<rparr>],
     goroutines = [],
     history = [RLock MessagesMutex, Lock SubscribersLock, RUnlock MessagesMutex,
        AppendSubscriber ''orders'' ex_sub, Unlock SubscribersLock,
        RLock MessagesMutex, Lock SubscribersLock, RUnlock MessagesMutex,
        AppendSubscriber ''orders'' ex_sub2, Unlock SubscribersLock]\<rparr>"
  by (simp add: ex_engine2_def ex_pending_eq run_goroutine_def Subscribe_goroutine_def log_def index_def)

lemma sendMessage_Some:
  "map_of (subscribers g) topic = Some ss \<Longrightarrow>
   sendMessage g topic msg sc =
     (case sendMessage_loop (logs [RLock SubscribersLock] g) msg ss sc of
        (Blocks, g2, sc') \<Rightarrow> (Blocks, g2, sc')
      | (r, g2, sc') \<Rightarrow> (r, logs [RUnlock SubscribersLock] g2, sc'))"
  by (auto simp: sendMessage_def log_logs Let_def split: prod.splits outcome.splits)

text \<open>
  Claim C6. The subscription goroutine appends the new subscriber at the end of the
  topic's slice, so the slice is in registration order. Delivery of a message walks the
  slice in that order and finishes each subscriber's send/ack cycle before the next
  begins: when subscriber number \<open>i\<close> nacks \<open>n\<^sub>i\<close> copies and then acks, the pushes in the
  history are those of the first subscriber, then those of the second, and so on. When
  the subscribers in \<open>before\<close> have been served and the send to the next one times out,
  \<^verbatim>\<open>sendMessage\<close> and the publish call return the timeout error in the state reached
  after \<open>before\<close>: nothing is sent to the subscribers \<open>behind\<close>, nor to that one.
\<close>

theorem subscribers_served_in_registration_order:
  "(Subscribe_goroutine g topic s sc = (Returns (), g', sc') \<longrightarrow>
      index (subscribers g') topic = index (subscribers g) topic @ [s])
   \<and> (map_of (subscribers g) topic = Some ss \<and> length ns = length ss \<and> list_all (open_chan g) ss \<longrightarrow>
        sendMessage g topic msg (concat (map ack_after ns) @ sc) =
          (Returns None,
           logs ([RLock SubscribersLock] @ concat (map2 (copies_to msg) ss ns) @ [RUnlock SubscribersLock]) g,
           sc))
   \<and> (map_of (subscribers g) topic = Some (before @ s # behind) \<and> sendTimeout g \<noteq> noTimeout \<and>
        sendMessage_loop (logs [RLock SubscribersLock] g) msg before sc = (Returns None, gm, TimedOut # rest) \<longrightarrow>
        sendMessage g topic msg sc =
          (Returns (Some (SendTimeouted (UUID msg) (sendTimeout g))), logs [RUnlock SubscribersLock] gm, rest))
   \<and> (map_of (subscribers g) topic = Some (before @ s # behind) \<and> sendTimeout g \<noteq> noTimeout \<and>
        sendMessage_loop (logs [RLock SubscribersLock] (Publish_persist g topic (msg # msgs))) msg before sc
          = (Returns None, gm, TimedOut # rest) \<longrightarrow>
        Publish g topic (msg # msgs) sc =
          (Returns (Some (SendTimeouted (UUID msg) (sendTimeout g))), logs [RUnlock SubscribersLock] gm, rest))"
proof -
  have a: "index (subscribers g') topic = index (subscribers g) topic @ [s]"
    if "Subscribe_goroutine g topic s sc = (Returns (), g', sc')"
    using that by (rule Subscribe_goroutine_registers)
  have b: "sendMessage g topic msg (concat (map ack_after ns) @ sc) =
          (Returns None,
           logs ([RLock SubscribersLock] @ concat (map2 (copies_to msg) ss ns) @ [RUnlock SubscribersLock]) g,
           sc)"
    if "map_of (subscribers g) topic = Some ss" "length ns = length ss" "list_all (open_chan g) ss"
  proof -
    from that(3) have "list_all (open_chan (logs [RLock SubscribersLock] g)) ss"
      by (simp add: list_all_iff)
    from sendMessage_loop_all_ack [OF that(2) this, of msg sc] show ?thesis
      by (simp add: sendMessage_Some [OF that(1)])
  qed
  have c': "sendMessage g topic msg sc =
          (Returns (Some (SendTimeouted (UUID msg) (sendTimeout g))), logs [RUnlock SubscribersLock] gm, rest)"
    if "map_of (subscribers g) topic = Some (before @ s # behind)" "sendTimeout g \<noteq> noTimeout"
       "sendMessage_loop (logs [RLock SubscribersLock] g) msg before sc = (Returns None, gm, TimedOut # rest)"
    for g
  proof -
    from that(2) have "sendTimeout (logs [RLock SubscribersLock] g) \<noteq> noTimeout" by simp
    from sendMessage_loop_timeout_aborts [OF that(3) this, of s behind] show ?thesis
      by (simp add: sendMessage_Some [OF that(1)])
  qed
  have d: "Publish g topic (msg # msgs) sc =
          (Returns (Some (SendTimeouted (UUID msg) (sendTimeout g))), logs [RUnlock SubscribersLock] gm, rest)"
    if "map_of (subscribers g) topic = Some (before @ s # behind)" "sendTimeout g \<noteq> noTimeout"
       "sendMessage_loop (logs [RLock SubscribersLock] (Publish_persist g topic (msg # msgs))) msg before sc
          = (Returns None, gm, TimedOut # rest)"
    using c' [of "Publish_persist g topic (msg # msgs)"] that by (simp add: Publish_def)
  from a b c' [of g] d show ?thesis by blast
qed

theorem subscribers_served_in_registration_order_witness:
  "Subscribe_goroutine ((ex_pending 5)\<lparr>goroutines := []\<rparr>) ''orders'' ex_sub2 [] = (Returns (), ex_engine2 5, [])
   \<and> index (subscribers (ex_engine2 5)) ''orders'' = [ex_sub, ex_sub2]
   \<and> map_of (subscribers (ex_engine2 5)) ''orders'' = Some [ex_sub, ex_sub2]
   \<and> length [1, 0 :: nat] = length [ex_sub, ex_sub2]
   \<and> list_all (open_chan (ex_engine2 5)) [ex_sub, ex_sub2]
   \<and> sendMessage (ex_engine2 5) ''orders'' ex_msg (concat (map ack_after [1, 0]) @ []) =
        (Returns None,
         logs [RLock SubscribersLock, ChanSend 0 (Copy ex_msg), ChanSend 0 (Copy ex_msg),
               ChanSend 1 (Copy ex_msg), RUnlock SubscribersLock] (ex_engine2 5), [])
   \<and> map_of (subscribers (ex_engine2 5)) ''orders'' = Some ([] @ ex_sub # [ex_sub2])
   \<and> sendTimeout (ex_engine2 5) \<noteq> noTimeout
   \<and> sendMessage_loop (logs [RLock SubscribersLock] (Publish_persist (ex_engine2 5) ''orders'' [ex_msg]))
          ex_msg [] [TimedOut, Received, Acked]
        = (Returns None, logs [RLock SubscribersLock] (ex_engine2 5), TimedOut # [Received, Acked])
   \<and> sendMessage (ex_engine2 5) ''orders'' ex_msg [TimedOut, Received, Acked] =
        (Returns (Some (SendTimeouted ''m1'' 5)),
         logs [RLock SubscribersLock, RUnlock SubscribersLock] (ex_engine2 5), [Received, Acked])
   \<and> Publish (ex_engine2 5) ''orders'' [ex_msg] [TimedOut, Received, Acked] =
        (Returns (Some (SendTimeouted ''m1'' 5)),
         logs [RLock SubscribersLock, RUnlock SubscribersLock] (ex_engine2 5), [Received, Acked])"
proof -
  have h1: "Subscribe_goroutine ((ex_pending 5)\<lparr>goroutines := []\<rparr>) ''orders'' ex_sub2 [] = (Returns (), ex_engine2 5, [])"
    by (simp add: ex_engine2_eq ex_pending_eq Subscribe_goroutine_def log_def index_def)
  have h2: "map_of (subscribers (ex_engine2 5)) ''orders'' = Some [ex_sub, ex_sub2]"
    by (simp add: ex_engine2_eq)
  have h3: "length [1, 0 :: nat] = length [ex_sub, ex_sub2]" by simp
  have h4: "list_all (open_chan (ex_engine2 5)) [ex_sub, ex_sub2]"
    by (simp add: ex_engine2_eq open_chan_def chan_at_def ex_sub_def ex_sub2_def)
  have h5: "map_of (subscribers (ex_engine2 5)) ''orders'' = Some ([] @ ex_sub # [ex_sub2])"
    by (simp add: ex_engine2_eq)
  have h6: "sendTimeout (ex_engine2 5) \<noteq> noTimeout"
    by (simp add: ex_engine2_eq noTimeout_def)
  have h7: "sendMessage_loop (logs [RLock SubscribersLock] (ex_engine2 5)) ex_msg [] [TimedOut, Received, Acked]
        = (Returns None, logs [RLock SubscribersLock] (ex_engine2 5), TimedOut # [Received, Acked])"
    by simp
  have h8: "sendMessage_loop (logs [RLock SubscribersLock] (Publish_persist (ex_engine2 5) ''orders'' [ex_msg]))
          ex_msg [] [TimedOut, Received, Acked]
        = (Returns None, logs [RLock SubscribersLock] (ex_engine2 5), TimedOut # [Received, Acked])"
    by (simp add: Publish_persist_def ex_engine2_eq)
  note c1 = subscribers_served_in_registration_order [where g = "(ex_pending 5)\<lparr>goroutines := []\<rparr>"
      and topic = "''orders''" and s = ex_sub2 and sc = "[]" and g' = "ex_engine2 5" and sc' = "[]"]
  note c2 = subscribers_served_in_registration_order [where g = "ex_engine2 5"
      and topic = "''orders''" and ss = "[ex_sub, ex_sub2]" and ns = "[1, 0]" and msg = ex_msg and sc = "[]"]
  note c3 = subscribers_served_in_registration_order [where g = "ex_engine2 5"
      and topic = "''orders''" and before = "[]" and s = ex_sub and behind = "[ex_sub2]" and msg = ex_msg
      and sc = "[TimedOut, Received, Acked]" and gm = "logs [RLock SubscribersLock] (ex_engine2 5)"
      and rest = "[Received, Acked]" and msgs = "[]"]
  from c1 h1 have w1: "index (subscribers (ex_engine2 5)) ''orders''
      = index (subscribers ((ex_pending 5)\<lparr>goroutines := []\<rparr>)) ''orders'' @ [ex_sub2]"
    by blast
  have w1': "index (subscribers ((ex_pending 5)\<lparr>goroutines := []\<rparr>)) ''orders'' = [ex_sub]"
    by (simp add: ex_pending_eq index_def)
  from c2 h2 h3 h4 have w2: "sendMessage (ex_engine2 5) ''orders'' ex_msg (concat (map ack_after [1, 0]) @ []) =
          (Returns None,
           logs ([RLock SubscribersLock] @ concat (map2 (copies_to ex_msg) [ex_sub, ex_sub2] [1, 0])
                   @ [RUnlock SubscribersLock]) (ex_engine2 5), [])"
    by blast
  have w2': "[RLock SubscribersLock] @ concat (map2 (copies_to ex_msg) [ex_sub, ex_sub2] [1, 0])
                   @ [RUnlock SubscribersLock]
      = [RLock SubscribersLock, ChanSend 0 (Copy ex_msg), ChanSend 0 (Copy ex_msg),
               ChanSend 1 (Copy ex_msg), RUnlock SubscribersLock]"
    by (simp add: copies_to_def ex_sub_def ex_sub2_def)
  from c3 h5 h6 h7 have w3: "sendMessage (ex_engine2 5) ''orders'' ex_msg [TimedOut, Received, Acked] =
        (Returns (Some (SendTimeouted (UUID ex_msg) (sendTimeout (ex_engine2 5)))),
         logs [RUnlock SubscribersLock] (logs [RLock SubscribersLock] (ex_engine2 5)), [Received, Acked])"
    by blast
  from c3 h5 h6 h8 have w4: "Publish (ex_engine2 5) ''orders'' [ex_msg] [TimedOut, Received, Acked] =
        (Returns (Some (SendTimeouted (UUID ex_msg) (sendTimeout (ex_engine2 5)))),
         logs [RUnlock SubscribersLock] (logs [RLock SubscribersLock] (ex_engine2 5)), [Received, Acked])"
    by blast
  have w3': "UUID ex_msg = ''m1''" "sendTimeout (ex_engine2 5) = 5"
    by (simp_all add: ex_msg_def ex_engine2_eq)
  from h1 h2 h3 h4 h5 h6 h8 w1 w1' w2 w2' w3 w4 w3' show ?thesis by simp
qed

subsection \<open>Errors in a publish call of several messages\<close>

lemma Publish_loop_append:
  "Publish_loop g topic (pre @ post) sc =
     (case Publish_loop g topic pre sc of
        (Returns None, g', sc') \<Rightarrow> Publish_loop g' topic post sc'
      | (r, g', sc') \<Rightarrow> (r, g', sc'))"
proof (induction pre arbitrary: g sc)
  case Nil
  then show ?case by simp
next
  case (Cons m pre)
  obtain r g1 sc1 where one: "sendMessage g topic m sc = (r, g1, sc1)"
    by (metis prod_cases3)
  then show ?case
    by (cases r) (auto simp: Cons.IH split: option.splits)
qed

lemma Publish_persist_history:
  "history (Publish_persist g topic msgs) =
     history g @ (if persistent g
                  then [Lock MessagesMutex, AppendMessages topic msgs, Unlock MessagesMutex] else [])"
  by (simp add: Publish_persist_def log_def Let_def)

lemma Publish_persist_messages:
  "persistent g \<Longrightarrow>
   index (messages (Publish_persist g topic msgs)) topic = index (messages g) topic @ msgs"
  by (simp add: Publish_persist_def log_def Let_def index_def update_conv')

lemma Publish_persist_persistent [simp]: "persistent (Publish_persist g topic msgs) = persistent g"
  by (simp add: Publish_persist_def log_def Let_def)

text \<open>
  Claim C4. In a publish call of the messages \<open>pre @ m # post\<close> in which the messages of
  \<open>pre\<close> are delivered and the delivery of \<open>m\<close> returns an error, the call returns that
  error in the state in which the delivery of \<open>m\<close> ended: it is the result of publishing
  \<open>pre @ [m]\<close> alone, so nothing is attempted for \<open>post\<close>. What was done stays: the
  history at the error extends the history after \<open>pre\<close>, which extends the one after the
  append; and in persistent mode the whole batch, \<open>post\<close> included, was appended to the
  topic's log in one step before the first delivery and is still in the log at the end.
\<close>

theorem publish_error_aborts_later_messages:
  assumes "Publish_loop (Publish_persist g topic (pre @ m # post)) topic pre sc = (Returns None, ga, sca)"
      and "sendMessage ga topic m sca = (Returns (Some err), gb, scb)"
  shows "Publish g topic (pre @ m # post) sc = (Returns (Some err), gb, scb)
       \<and> Publish_loop (Publish_persist g topic (pre @ m # post)) topic (pre @ [m]) sc
           = (Returns (Some err), gb, scb)
       \<and> prefix (history (Publish_persist g topic (pre @ m # post))) (history ga)
       \<and> prefix (history ga) (history gb)
       \<and> (persistent g \<longrightarrow>
            history (Publish_persist g topic (pre @ m # post)) =
              history g @ [Lock MessagesMutex, AppendMessages topic (pre @ m # post), Unlock MessagesMutex]
          \<and> index (messages (Publish_persist g topic (pre @ m # post))) topic
              = index (messages g) topic @ pre @ m # post
          \<and> index (messages gb) topic = index (messages g) topic @ pre @ m # post)"
proof -
  let ?g = "Publish_persist g topic (pre @ m # post)"
  have a: "Publish g topic (pre @ m # post) sc = (Returns (Some err), gb, scb)"
    using assms by (simp add: Publish_def Publish_loop_append)
  have b: "Publish_loop ?g topic (pre @ [m]) sc = (Returns (Some err), gb, scb)"
    using assms by (simp add: Publish_loop_append)
  from Publish_loop_frame [OF assms(1)] obtain h1 where h1: "ga = logs h1 ?g" by blast
  from sendMessage_frame [OF assms(2)] obtain h2 where h2: "gb = logs h2 ga" by blast
  have c: "prefix (history ?g) (history ga)" using h1 by simp
  have d: "prefix (history ga) (history gb)" using h2 by simp
  have e: "history ?g = history g @ [Lock MessagesMutex, AppendMessages topic (pre @ m # post), Unlock MessagesMutex]"
    if "persistent g"
    using that by (simp add: Publish_persist_history)
  have f: "index (messages ?g) topic = index (messages g) topic @ pre @ m # post" if "persistent g"
    using that by (rule Publish_persist_messages)
  have k: "index (messages gb) topic = index (messages g) topic @ pre @ m # post" if "persistent g"
    using f [OF that] h1 h2 by simp
  from a b c d e f k show ?thesis by blast
qed

lemma ex_persisted:
  "Publish_persist (ex_engine True 5) ''orders'' [ex_msg, ex_msg2, ex_msg3] =
     (logs [Lock MessagesMutex, AppendMessages ''orders'' [ex_msg, ex_msg2, ex_msg3], Unlock MessagesMutex]
        (ex_engine True 5))\<lparr>messages := [(''orders'', [ex_msg, ex_msg2, ex_msg3])]\<rparr>"
  by (simp add: Publish_persist_def ex_engine_eq log_def logs_def index_def)

theorem publish_error_aborts_later_messages_witness:
  "Publish_loop (Publish_persist (ex_engine True 5) ''orders'' ([ex_msg] @ ex_msg2 # [ex_msg3])) ''orders''
       [ex_msg] [Received, Acked, TimedOut]
     = (Returns None,
        (logs [Lock MessagesMutex, AppendMessages ''orders'' [ex_msg, ex_msg2, ex_msg3], Unlock MessagesMutex,
               RLock SubscribersLock, ChanSend 0 (Copy ex_msg), RUnlock SubscribersLock]
           (ex_engine True 5))\<lparr>messages := [(''orders'', [ex_msg, ex_msg2, ex_msg3])]\<rparr>,
        [TimedOut])
   \<and> sendMessage
        ((logs [Lock MessagesMutex, AppendMessages ''orders'' [ex_msg, ex_msg2, ex_msg3], Unlock MessagesMutex,
               RLock SubscribersLock, ChanSend 0 (Copy ex_msg), RUnlock SubscribersLock]
           (ex_engine True 5))\<lparr>messages := [(''orders'', [ex_msg, ex_msg2, ex_msg3])]\<rparr>)
        ''orders'' ex_msg2 [TimedOut]
     = (Returns (Some (SendTimeouted ''m2'' 5)),
        (logs [Lock MessagesMutex, AppendMessages ''orders'' [ex_msg, ex_msg2, ex_msg3], Unlock MessagesMutex,
               RLock SubscribersLock, ChanSend 0 (Copy ex_msg), RUnlock SubscribersLock,
               RLock SubscribersLock, RUnlock SubscribersLock]
           (ex_engine True 5))\<lparr>messages := [(''orders'', [ex_msg, ex_msg2, ex_msg3])]\<rparr>,
        [])
   \<and> persistent (ex_engine True 5)
   \<and> Publish (ex_engine True 5) ''orders'' ([ex_msg] @ ex_msg2 # [ex_msg3]) [Received, Acked, TimedOut]
     = (Returns (Some (SendTimeouted ''m2'' 5)),
        (logs [Lock MessagesMutex, AppendMessages ''orders'' [ex_msg, ex_msg2, ex_msg3], Unlock MessagesMutex,
               RLock SubscribersLock, ChanSend 0 (Copy ex_msg), RUnlock SubscribersLock,
               RLock SubscribersLock, RUnlock SubscribersLock]
           (ex_engine True 5))\<lparr>messages := [(''orders'', [ex_msg, ex_msg2, ex_msg3])]\<rparr>,
        [])
   \<and> index (messages
        ((logs [Lock MessagesMutex, AppendMessages ''orders'' [ex_msg, ex_msg2, ex_msg3], Unlock MessagesMutex,
               RLock SubscribersLock, ChanSend 0 (Copy ex_msg), RUnlock SubscribersLock,
               RLock SubscribersLock, RUnlock SubscribersLock]
           (ex_engine True 5))\<lparr>messages := [(''orders'', [ex_msg, ex_msg2, ex_msg3])]\<rparr>)) ''orders''
     = index (messages (ex_engine True 5)) ''orders'' @ [ex_msg] @ ex_msg2 # [ex_msg3]"
proof -
  let ?ga = "(logs [Lock MessagesMutex, AppendMessages ''orders'' [ex_msg, ex_msg2, ex_msg3], Unlock MessagesMutex,
               RLock SubscribersLock, ChanSend 0 (Copy ex_msg), RUnlock SubscribersLock]
           (ex_engine True 5))\<lparr>messages := [(''orders'', [ex_msg, ex_msg2, ex_msg3])]\<rparr>"
  let ?gb = "(logs [Lock MessagesMutex, AppendMessages ''orders'' [ex_msg, ex_msg2, ex_msg3], Unlock MessagesMutex,
               RLock SubscribersLock, ChanSend 0 (Copy ex_msg), RUnlock SubscribersLock,
               RLock SubscribersLock, RUnlock SubscribersLock]
           (ex_engine True 5))\<lparr>messages := [(''orders'', [ex_msg, ex_msg2, ex_msg3])]\<rparr>"
  have h1: "Publish_loop (Publish_persist (ex_engine True 5) ''orders'' ([ex_msg] @ ex_msg2 # [ex_msg3])) ''orders''
       [ex_msg] [Received, Acked, TimedOut] = (Returns None, ?ga, [TimedOut])"
    by (simp add: ex_persisted) (simp add: ex_engine_eq sendMessage_def log_def logs_def chan_at_def)
  have h2: "sendMessage ?ga ''orders'' ex_msg2 [TimedOut] = (Returns (Some (SendTimeouted ''m2'' 5)), ?gb, [])"
    by (simp add: ex_engine_eq sendMessage_def log_def logs_def chan_at_def noTimeout_def Copy_def ex_msg2_def)
  have h3: "persistent (ex_engine True 5)"
    by (simp add: ex_engine_eq)
  from publish_error_aborts_later_messages [OF h1 h2] h1 h2 h3 show ?thesis by blast
qed

subsection \<open>Close\<close>

lemma close_chan_closed:
  "close_chan g a = (r, g') \<Longrightarrow> closed g' = closed g"
  by (auto simp: close_chan_def log_def split: option.splits if_splits)

lemma Close_subscribers_closed:
  "Close_subscribers g ss = (r, g') \<Longrightarrow> closed g' = closed g"
proof (induction ss arbitrary: g)
  case Nil
  then show ?case by simp
next
  case (Cons s ss)
  obtain r1 g1 where one: "close_chan g (outputChannel s) = (r1, g1)" by (cases "close_chan g (outputChannel s)")
  from close_chan_closed [OF one] have c: "closed g1 = closed g" .
  show ?case
  proof (cases r1)
    case (Returns u)
    with Cons.prems one have "Close_subscribers g1 ss = (r, g')" by simp
    from Cons.IH [OF this] c show ?thesis by simp
  qed (use Cons.prems one c in auto)
qed

lemma Close_topics_closed:
  "Close_topics g ts = (r, g') \<Longrightarrow> closed g' = closed g"
proof (induction ts arbitrary: g)
  case Nil
  then show ?case by simp
next
  case (Cons t ts)
  obtain r1 g1 where one: "Close_subscribers g (snd t) = (r1, g1)" by (cases "Close_subscribers g (snd t)")
  from Close_subscribers_closed [OF one] have c: "closed g1 = closed g" .
  show ?case
  proof (cases r1)
    case (Returns u)
    with Cons.prems one have "Close_topics g1 ts = (r, g')" by simp
    from Cons.IH [OF this] c show ?thesis by simp
  qed (use Cons.prems one c in auto)
qed

lemma Close_sets_closed:
  "Close g = (r, g') \<Longrightarrow> closed g'"
proof -
  assume a: "Close g = (r, g')"
  show ?thesis
  proof (cases "closed g")
    case True
    with a show ?thesis by (simp add: Close_def)
  next
    case False
    note nc = False
    show ?thesis
    proof (cases "closing g")
      case True
      with a nc show ?thesis by (auto simp: Close_def)
    next
      case False
      let ?g3 = "log (Lock SubscribersLock) (log CloseClosing (g\<lparr>closed := True, closing := True\<rparr>))"
      obtain r1 g4 where ct: "Close_topics ?g3 (subscribers ?g3) = (r1, g4)"
        by (cases "Close_topics ?g3 (subscribers ?g3)")
      from Close_topics_closed [OF ct] have "closed g4" by (simp add: log_def)
      with a nc False ct show ?thesis
        by (cases r1) (auto simp: Close_def Let_def log_def)
    qed
  qed
qed

text \<open>
  Claim C7. \<^verbatim>\<open>Close\<close> on an engine whose flag is set returns \<^verbatim>\<open>nil\<close> and leaves the
  engine as it is. Every call of \<^verbatim>\<open>Close\<close> leaves the flag set, so a call after the
  first returns \<^verbatim>\<open>nil\<close>, changes nothing, adds nothing to the history (no queue is
  closed again), and the engine after two calls is the engine after one.
\<close>

theorem Close_idempotent:
  "(closed g \<longrightarrow> Close g = (Returns None, g))
   \<and> (Close g = (r, gc) \<longrightarrow> Close gc = (Returns None, gc) \<and> history (snd (Close gc)) = history gc)
   \<and> (fst (Close g) = Returns None \<longrightarrow> snd (Close (snd (Close g))) = snd (Close g))"
proof -
  have a: "Close g = (Returns None, g)" if "closed g" for g
    using that by (simp add: Close_def)
  have b: "Close gc = (Returns None, gc)" if "Close g = (r, gc)"
    using Close_sets_closed [OF that] by (rule a)
  have c: "snd (Close (snd (Close g))) = snd (Close g)"
  proof -
    have "Close g = (fst (Close g), snd (Close g))" by simp
    from Close_sets_closed [OF this] have "closed (snd (Close g))" .
    from a [OF this] show ?thesis by simp
  qed
  from a [of g] b c show ?thesis by simp
qed

theorem Close_idempotent_witness:
  "Close (ex_engine2 5) =
     (Returns None,
      (logs [CloseClosing, Lock SubscribersLock, ChanClose 0, ChanClose 1, Unlock SubscribersLock]
         (ex_engine2 5))\<lparr>closed := True, closing := True,
            chans := [\<lparr>chan_cap = 1, chan_closed = True\<rparr>, \<lparr>chan_cap = 1, chan_closed = True\<rparr>]\<rparr>)
   \<and> closed (snd (Close (ex_engine2 5)))
   \<and> Close (snd (Close (ex_engine2 5))) = (Returns None, snd (Close (ex_engine2 5)))
   \<and> fst (Close (ex_engine2 5)) = Returns None
   \<and> snd (Close (snd (Close (ex_engine2 5)))) = snd (Close (ex_engine2 5))"
proof -
  have h: "Close (ex_engine2 5) =
     (Returns None,
      (logs [CloseClosing, Lock SubscribersLock, ChanClose 0, ChanClose 1, Unlock SubscribersLock]
         (ex_engine2 5))\<lparr>closed := True, closing := True,
            chans := [\<lparr>chan_cap = 1, chan_closed = True\<rparr>, \<lparr>chan_cap = 1, chan_closed = True\<rparr>]\<rparr>)"
    by (simp add: ex_engine2_eq Close_def close_chan_def chan_at_def log_def logs_def ex_sub_def ex_sub2_def)
  then have h2: "fst (Close (ex_engine2 5)) = Returns None" by simp
  have h3: "closed (snd (Close (ex_engine2 5)))" by (simp add: h)
  have h4: "Close (ex_engine2 5) = (Returns None, snd (Close (ex_engine2 5)))" by (simp add: h)
  from Close_idempotent [where g = "ex_engine2 5" and r = "Returns None" and gc = "snd (Close (ex_engine2 5))"]
  have "Close (snd (Close (ex_engine2 5))) = (Returns None, snd (Close (ex_engine2 5)))"
    using h4 by blast
  moreover from Close_idempotent [where g = "ex_engine2 5"] h2
  have "snd (Close (snd (Close (ex_engine2 5)))) = snd (Close (ex_engine2 5))" by blast
  ultimately show ?thesis using h h2 h3 by simp
qed

subsection \<open>Subscribe\<close>

lemma Subscribe_replay_all_ack:
  "open_chan g s \<Longrightarrow>
   Subscribe_replay g msgs s (acks_all msgs @ sc) =
     (Returns (), logs (map (\<lambda>m. ChanSend (outputChannel s) (Copy m)) msgs) g, sc)"
proof (induction msgs arbitrary: g)
  case Nil
  then show ?case by (simp add: acks_all_def)
next
  case (Cons m msgs)
  let ?g = "logs [ChanSend (outputChannel s) (Copy m)] g"
  have o: "open_chan ?g s" using Cons.prems by simp
  have "Subscribe_replay g (m # msgs) s (acks_all (m # msgs) @ sc)
        = Subscribe_replay ?g msgs s (acks_all msgs @ sc)"
    using Cons.prems sMTS_Received_Acked [OF Cons.prems, of m noTimeout "acks_all msgs @ sc"]
    by (simp add: acks_all_def del: sendMessageToSubscriber.simps)
  also have "\<dots> = (Returns (), logs (map (\<lambda>m. ChanSend (outputChannel s) (Copy m)) msgs) ?g, sc)"
    by (rule Cons.IH [OF o])
  finally show ?case by simp
qed

lemma ex_retaining_eq:
  "ex_retaining =
    \<lparr>sendTimeout = - 1, outputChannelBuffer = 1, subscribers = [],
     closed = False, closing = False, persistent = True, messages = [(''orders'', [ex_msg])],
     chans = [], goroutines = [],
     history = [Lock MessagesMutex, AppendMessages ''orders'' [ex_msg], Unlock MessagesMutex,
                RLock SubscribersLock, RUnlock SubscribersLock]\<rparr>"
  by (simp add: ex_retaining_def NewPersistentGoChannel_def Publish_def Publish_persist_def
      sendMessage_def log_def index_def)

lemma Subscribe_Returns:
  "0 \<le> outputChannelBuffer g \<Longrightarrow> outputChannelBuffer g \<le> maxCap \<Longrightarrow>
   Subscribe maxCap g topic u =
     (Returns (Some (length (chans g)), None),
      g\<lparr>chans := chans g @ [\<lparr>chan_cap = outputChannelBuffer g, chan_closed = False\<rparr>],
        goroutines := goroutines g @ [(topic, new_subscriber g u)]\<rparr>)"
  by (simp add: Subscribe_def make_chan_def new_subscriber_def)

lemma Subscribe_goroutine_not_returned:
  assumes "Subscribe_goroutine g topic s sc = (r, g', sc')" and "r \<noteq> Returns ()"
  shows "subscribers g' = subscribers g"
proof -
  obtain r0 g2 sc2 where res: "Subscribe_replay (logs [RLock MessagesMutex] g)
      (if persistent g then index (messages g) topic else []) s sc = (r0, g2, sc2)"
    by (metis prod_cases3)
  from Subscribe_replay_frame [OF res] obtain h where h: "g2 = logs h (logs [RLock MessagesMutex] g)"
    by blast
  from assms res have "g' = g2"
    by (cases r0) (auto simp: Subscribe_goroutine_unfold)
  with h show ?thesis by simp
qed

text \<open>
  Claim C8, as amended. On an engine whose configured queue capacity \<^verbatim>\<open>make\<close> grants
  (not negative and not above the largest capacity \<open>maxCap\<close> of the runtime), for every
  topic, \<^verbatim>\<open>Subscribe\<close> returns a queue that is not \<^verbatim>\<open>nil\<close>, open and of the configured
  capacity, and a \<^verbatim>\<open>nil\<close> error. When it returns, the registry is unchanged and the
  goroutine of the subscription is started, not run: the registration is left to it.
  Under every schedule, when the goroutine returns the subscriber is at the end of the
  topic's slice, and as long as it has not returned (a replayed copy is not yet
  acknowledged) the registry is unchanged. With a consumer that acks every replayed copy
  it pushes a copy of each retained message of the topic (none unless the engine is
  persistent), appends the subscriber and returns.
\<close>

theorem Subscribe_returns_queue_and_registers_later:
  assumes "0 \<le> outputChannelBuffer g" and "outputChannelBuffer g \<le> maxCap"
  shows "fst (Subscribe maxCap g topic u) = Returns (Some (outputChannel (new_subscriber g u)), None)
       \<and> chan_at (snd (Subscribe maxCap g topic u)) (outputChannel (new_subscriber g u))
           = Some \<lparr>chan_cap = outputChannelBuffer g, chan_closed = False\<rparr>
       \<and> subscribers (snd (Subscribe maxCap g topic u)) = subscribers g
       \<and> goroutines (snd (Subscribe maxCap g topic u)) = goroutines g @ [(topic, new_subscriber g u)]
       \<and> (goroutines g = [] \<longrightarrow>
            run_goroutine (snd (Subscribe maxCap g topic u)) (acks_all (retained g topic) @ sc) =
              (Returns (),
               logs ([RLock MessagesMutex]
                     @ map (\<lambda>m. ChanSend (outputChannel (new_subscriber g u)) (Copy m)) (retained g topic)
                     @ [Lock SubscribersLock, RUnlock MessagesMutex,
                        AppendSubscriber topic (new_subscriber g u), Unlock SubscribersLock])
                 (g\<lparr>chans := chans g @ [\<lparr>chan_cap = outputChannelBuffer g, chan_closed = False\<rparr>],
                    subscribers := AList.update topic (index (subscribers g) topic @ [new_subscriber g u])
                                     (subscribers g)\<rparr>),
               sc)
          \<and> (\<forall>sca ga scb.
                run_goroutine (snd (Subscribe maxCap g topic u)) sca = (Returns (), ga, scb) \<longrightarrow>
                index (subscribers ga) topic = index (subscribers g) topic @ [new_subscriber g u])
          \<and> (\<forall>sca.
                fst (run_goroutine (snd (Subscribe maxCap g topic u)) sca) \<noteq> Returns () \<longrightarrow>
                subscribers (fst (snd (run_goroutine (snd (Subscribe maxCap g topic u)) sca)))
                  = subscribers g))"
proof -
  let ?s = "new_subscriber g u"
  let ?g1 = "g\<lparr>chans := chans g @ [\<lparr>chan_cap = outputChannelBuffer g, chan_closed = False\<rparr>]\<rparr>"
  note S = Subscribe_Returns [OF assms, of topic u]
  have a: "fst (Subscribe maxCap g topic u) = Returns (Some (outputChannel ?s), None)"
    by (simp add: S new_subscriber_def)
  have b: "chan_at (snd (Subscribe maxCap g topic u)) (outputChannel ?s)
           = Some \<lparr>chan_cap = outputChannelBuffer g, chan_closed = False\<rparr>"
    by (simp add: S new_subscriber_def chan_at_def)
  have c: "subscribers (snd (Subscribe maxCap g topic u)) = subscribers g" by (simp add: S)
  have d: "goroutines (snd (Subscribe maxCap g topic u)) = goroutines g @ [(topic, ?s)]" by (simp add: S)
  have run: "run_goroutine (snd (Subscribe maxCap g topic u)) sca = Subscribe_goroutine ?g1 topic ?s sca"
    if "goroutines g = []" for sca
  proof -
    have "goroutines ?g1 = []" using that by simp
    then have eq: "?g1\<lparr>goroutines := []\<rparr> = ?g1" by (cases g) simp
    have "run_goroutine (snd (Subscribe maxCap g topic u)) sca
          = Subscribe_goroutine (?g1\<lparr>goroutines := []\<rparr>) topic ?s sca"
      using that by (simp add: S run_goroutine_def)
    then show ?thesis by (simp only: eq)
  qed
  have e: "run_goroutine (snd (Subscribe maxCap g topic u)) (acks_all (retained g topic) @ sc) =
              (Returns (),
               logs ([RLock MessagesMutex]
                     @ map (\<lambda>m. ChanSend (outputChannel ?s) (Copy m)) (retained g topic)
                     @ [Lock SubscribersLock, RUnlock MessagesMutex,
                        AppendSubscriber topic ?s, Unlock SubscribersLock])
                 (?g1\<lparr>subscribers := AList.update topic (index (subscribers g) topic @ [?s])
                                     (subscribers g)\<rparr>),
               sc)"
    if "goroutines g = []"
  proof -
    have o: "open_chan (logs [RLock MessagesMutex] ?g1) ?s"
      by (simp add: open_chan_def chan_at_def new_subscriber_def)
    have r: "(if persistent ?g1 then index (messages ?g1) topic else []) = retained g topic"
      by (simp add: retained_def)
    show ?thesis
      unfolding run [OF that] Subscribe_goroutine_unfold r Subscribe_replay_all_ack [OF o]
      by (simp add: logs_def)
  qed
  have f: "index (subscribers ga) topic = index (subscribers g) topic @ [?s]"
    if "goroutines g = []" "run_goroutine (snd (Subscribe maxCap g topic u)) sca = (Returns (), ga, scb)"
    for sca ga scb
    using Subscribe_goroutine_registers [of ?g1 topic ?s sca "()" ga scb] that by (simp add: run)
  have k: "subscribers (fst (snd (run_goroutine (snd (Subscribe maxCap g topic u)) sca))) = subscribers g"
    if "goroutines g = []" "fst (run_goroutine (snd (Subscribe maxCap g topic u)) sca) \<noteq> Returns ()"
    for sca
  proof -
    obtain r ga scb where res: "Subscribe_goroutine ?g1 topic ?s sca = (r, ga, scb)"
      by (metis prod_cases3)
    with that have "r \<noteq> Returns ()" by (simp add: run)
    from Subscribe_goroutine_not_returned [OF res this] res that(1) show ?thesis
      by (simp add: run)
  qed
  from a b c d e f k show ?thesis by blast
qed

theorem Subscribe_returns_queue_and_registers_later_witness:
  "0 \<le> outputChannelBuffer ex_retaining
   \<and> outputChannelBuffer ex_retaining \<le> ex_maxCap
   \<and> goroutines ex_retaining = []
   \<and> fst (Subscribe ex_maxCap ex_retaining ''orders'' ''u1'') = Returns (Some 0, None)
   \<and> subscribers (snd (Subscribe ex_maxCap ex_retaining ''orders'' ''u1'')) = []
   \<and> goroutines (snd (Subscribe ex_maxCap ex_retaining ''orders'' ''u1'')) = [(''orders'', ex_sub)]
   \<and> run_goroutine (snd (Subscribe ex_maxCap ex_retaining ''orders'' ''u1'')) ([Received, Acked] @ []) =
       (Returns (),
        logs [RLock MessagesMutex, ChanSend 0 (Copy ex_msg), Lock SubscribersLock, RUnlock MessagesMutex,
              AppendSubscriber ''orders'' ex_sub, Unlock SubscribersLock]
          (ex_retaining\<lparr>chans := [\<lparr>chan_cap = 1, chan_closed = False\<rparr>],
                         subscribers := [(''orders'', [ex_sub])]\<rparr>),
        [])
   \<and> fst (run_goroutine (snd (Subscribe ex_maxCap ex_retaining ''orders'' ''u1''))
          [Received, Nacked, Received, Acked]) = Returns ()
   \<and> index (subscribers (fst (snd (run_goroutine (snd (Subscribe ex_maxCap ex_retaining ''orders'' ''u1''))
          [Received, Nacked, Received, Acked])))) ''orders'' = [ex_sub]
   \<and> fst (run_goroutine (snd (Subscribe ex_maxCap ex_retaining ''orders'' ''u1'')) [Received]) \<noteq> Returns ()
   \<and> subscribers (fst (snd (run_goroutine (snd (Subscribe ex_maxCap ex_retaining ''orders'' ''u1''))
          [Received]))) = []"
proof -
  let ?g = "snd (Subscribe ex_maxCap ex_retaining ''orders'' ''u1'')"
  have h1: "0 \<le> outputChannelBuffer ex_retaining" by (simp add: ex_retaining_eq)
  have h0: "outputChannelBuffer ex_retaining \<le> ex_maxCap" by (simp add: ex_retaining_eq ex_maxCap_def)
  have h2: "goroutines ex_retaining = []" by (simp add: ex_retaining_eq)
  have s: "new_subscriber ex_retaining ''u1'' = ex_sub"
    by (simp add: new_subscriber_def ex_retaining_eq ex_sub_def)
  have r: "retained ex_retaining ''orders'' = [ex_msg]"
    by (simp add: retained_def ex_retaining_eq index_def)
  have f: "outputChannel ex_sub = 0" "subscribers ex_retaining = []" "chans ex_retaining = []"
      "outputChannelBuffer ex_retaining = 1" "acks_all [ex_msg] = [Received, Acked]"
    by (simp_all add: ex_sub_def ex_retaining_eq acks_all_def)
  have gq: "?g = ex_retaining\<lparr>chans := [\<lparr>chan_cap = 1, chan_closed = False\<rparr>],
                               goroutines := [(''orders'', ex_sub)]\<rparr>"
    by (simp add: ex_retaining_eq Subscribe_def make_chan_def ex_maxCap_def ex_sub_def)
  have h3: "fst (run_goroutine ?g [Received, Nacked, Received, Acked]) = Returns ()"
    unfolding gq
    by (simp add: ex_retaining_eq run_goroutine_def Subscribe_goroutine_def log_def index_def
        chan_at_def ex_sub_def)
  have h4: "fst (run_goroutine ?g [Received]) \<noteq> Returns ()"
    unfolding gq
    by (simp add: ex_retaining_eq run_goroutine_def Subscribe_goroutine_def log_def index_def
        chan_at_def ex_sub_def)
  note c = Subscribe_returns_queue_and_registers_later [OF h1 h0, of "''orders''" "''u1''" "[]", unfolded s r]
  from c h2 have "run_goroutine ?g (acks_all [ex_msg] @ []) =
              (Returns (),
               logs ([RLock MessagesMutex]
                     @ map (\<lambda>m. ChanSend (outputChannel ex_sub) (Copy m)) [ex_msg]
                     @ [Lock SubscribersLock, RUnlock MessagesMutex,
                        AppendSubscriber ''orders'' ex_sub, Unlock SubscribersLock])
                 (ex_retaining\<lparr>chans := chans ex_retaining @ [\<lparr>chan_cap = outputChannelBuffer ex_retaining, chan_closed = False\<rparr>],
                    subscribers := AList.update ''orders'' (index (subscribers ex_retaining) ''orders'' @ [ex_sub])
                                     (subscribers ex_retaining)\<rparr>),
               [])"
    by blast
  then have w: "run_goroutine ?g ([Received, Acked] @ []) =
       (Returns (),
        logs [RLock MessagesMutex, ChanSend 0 (Copy ex_msg), Lock SubscribersLock, RUnlock MessagesMutex,
              AppendSubscriber ''orders'' ex_sub, Unlock SubscribersLock]
          (ex_retaining\<lparr>chans := [\<lparr>chan_cap = 1, chan_closed = False\<rparr>],
                         subscribers := [(''orders'', [ex_sub])]\<rparr>),
        [])"
    by (simp add: f index_def)
  have h3': "run_goroutine ?g [Received, Nacked, Received, Acked]
      = (Returns (), fst (snd (run_goroutine ?g [Received, Nacked, Received, Acked])),
         snd (snd (run_goroutine ?g [Received, Nacked, Received, Acked])))"
    using h3 by (metis prod.collapse)
  from c h2 h3' have w2: "index (subscribers (fst (snd (run_goroutine ?g [Received, Nacked, Received, Acked]))))
      ''orders'' = index (subscribers ex_retaining) ''orders'' @ [ex_sub]"
    by blast
  from c h2 h4 have w3: "subscribers (fst (snd (run_goroutine ?g [Received]))) = subscribers ex_retaining"
    by blast
  from c have "fst (Subscribe ex_maxCap ex_retaining ''orders'' ''u1'') = Returns (Some (outputChannel ex_sub), None)"
      "subscribers ?g = subscribers ex_retaining"
      "goroutines ?g = goroutines ex_retaining @ [(''orders'', ex_sub)]"
    by blast+
  with h0 h1 h2 h3 h4 w w2 w3 show ?thesis by (simp add: f index_def)
qed

text \<open>
  Claim C8 as stated fails: \<^verbatim>\<open>NewGoChannel\<close> accepts any capacity, and on an engine built
  with the capacity minus one, or with a capacity of \<open>2 ^ 62\<close> slots, \<^verbatim>\<open>Subscribe\<close> does
  not return: \<^verbatim>\<open>make\<close> panics.
\<close>

theorem Subscribe_panics_on_refused_capacity:
  "outputChannelBuffer (NewGoChannel (- 1) (- 1)) = - 1
   \<and> fst (Subscribe ex_maxCap (NewGoChannel (- 1) (- 1)) ''orders'' ''u1'') = Panics MakechanSizeOutOfRange
   \<and> fst (Subscribe ex_maxCap (NewGoChannel (2 ^ 62) (- 1)) ''orders'' ''u1'') = Panics MakechanSizeOutOfRange"
  by (simp add: NewGoChannel_def Subscribe_def make_chan_def ex_maxCap_def)

subsection \<open>Replay\<close>

lemma sMTS_update:
  assumes ch: "\<And>g. chans (f g) = chans g" and lg: "\<And>a g. log a (f g) = f (log a g)"
  shows "sendMessageToSubscriber (f g) msg s t sc =
     (case sendMessageToSubscriber g msg s t sc of (r, g', sc') \<Rightarrow> (r, f g', sc'))"
proof (induction g msg s t sc rule: sendMessageToSubscriber.induct)
  case (1 g msg s t)
  then show ?case by simp
next
  case (2 g msg s t e es)
  have ca: "chan_at (f g) (outputChannel s) = chan_at g (outputChannel s)"
    by (simp add: chan_at_def ch)
  show ?case
  proof (cases e)
    case Received
    show ?thesis
    proof (cases "chan_at g (outputChannel s)")
      case None
      with Received ca show ?thesis by simp
    next
      case (Some c)
      show ?thesis
      proof (cases "chan_closed c")
        case True
        with Received Some ca show ?thesis by simp
      next
        case False
        show ?thesis
        proof (cases es)
          case Nil
          with Received Some False ca lg show ?thesis by simp
        next
          case (Cons a es')
          show ?thesis
          proof (cases a)
            case Nacked
            from 2 [OF refl refl Received Some False refl Cons Nacked]
            show ?thesis using Received Some False Cons Nacked ca lg by simp
          qed (use Received Some False Cons ca lg in simp_all)
        qed
      qed
    qed
  qed simp_all
qed

lemma sMTS_sendTimeout_update:
  "sendMessageToSubscriber (g\<lparr>sendTimeout := d\<rparr>) msg s t sc =
     (case sendMessageToSubscriber g msg s t sc of (r, g', sc') \<Rightarrow> (r, g'\<lparr>sendTimeout := d\<rparr>, sc'))"
  by (rule sMTS_update) (simp_all add: log_def)

lemma sMTS_closed_update:
  "sendMessageToSubscriber (g\<lparr>closed := b\<rparr>) msg s t sc =
     (case sendMessageToSubscriber g msg s t sc of (r, g', sc') \<Rightarrow> (r, g'\<lparr>closed := b\<rparr>, sc'))"
  by (rule sMTS_update) (simp_all add: log_def)

lemma Subscribe_replay_sendTimeout_update:
  "Subscribe_replay (g\<lparr>sendTimeout := d\<rparr>) msgs s sc =
     (case Subscribe_replay g msgs s sc of (r, g', sc') \<Rightarrow> (r, g'\<lparr>sendTimeout := d\<rparr>, sc'))"
proof (induction msgs arbitrary: g sc)
  case Nil
  then show ?case by simp
next
  case (Cons m msgs)
  obtain r1 g1 sc1 where one: "sendMessageToSubscriber g m s noTimeout sc = (r1, g1, sc1)"
    by (metis prod_cases3)
  then show ?case
    by (cases r1) (auto simp: sMTS_sendTimeout_update Cons.IH split: option.splits simp del: sendMessageToSubscriber.simps)
qed

lemma sMTS_outcomes:
  "fst (sendMessageToSubscriber g msg s t sc)
     \<in> {Returns None, Returns (Some (SendTimeouted (UUID msg) t)), Panics SendOnClosedChannel, Blocks}"
proof (induction g msg s t sc rule: sendMessageToSubscriber.induct)
  case (1 g msg s t)
  then show ?case by simp
next
  case (2 g msg s t e es)
  show ?case
  proof (cases e)
    case Received
    show ?thesis
    proof (cases "chan_at g (outputChannel s)")
      case None
      with Received show ?thesis by simp
    next
      case (Some c)
      show ?thesis
      proof (cases "chan_closed c")
        case True
        with Received Some show ?thesis by simp
      next
        case False
        show ?thesis
        proof (cases es)
          case Nil
          with Received Some False show ?thesis by simp
        next
          case (Cons a es')
          show ?thesis
          proof (cases a)
            case Nacked
            from 2 [OF refl refl Received Some False refl Cons Nacked]
            show ?thesis using Received Some False Cons Nacked by simp
          qed (use Received Some False Cons in simp_all)
        qed
      qed
    qed
  qed (simp_all add: Copy_def)
qed

lemma Subscribe_replay_outcomes:
  "fst (Subscribe_replay g msgs s sc) \<in> {Returns (), Panics SendOnClosedChannel, Blocks}"
proof (induction msgs arbitrary: g sc)
  case Nil
  then show ?case by simp
next
  case (Cons m msgs)
  obtain r1 g1 sc1 where one: "sendMessageToSubscriber g m s noTimeout sc = (r1, g1, sc1)"
    by (metis prod_cases3)
  from sMTS_outcomes [of g m s noTimeout sc] sMTS_noTimeout_no_error [of g m s sc] one
  have "r1 \<in> {Returns None, Panics SendOnClosedChannel, Blocks}" by auto
  with one Cons.IH [of g1 sc1] show ?case by auto
qed

lemma Subscribe_goroutine_fst:
  "fst (Subscribe_goroutine g topic s sc) =
     fst (Subscribe_replay (logs [RLock MessagesMutex] g) (if persistent g then index (messages g) topic else []) s sc)"
proof -
  obtain r g2 sc2 where res: "Subscribe_replay (logs [RLock MessagesMutex] g)
      (if persistent g then index (messages g) topic else []) s sc = (r, g2, sc2)"
    by (metis prod_cases3)
  then show ?thesis by (cases r) (simp_all add: Subscribe_goroutine_unfold)
qed

text \<open>
  Claim C9. The goroutine of a subscription does not read the engine's send timeout:
  run on the engine with any other timeout \<open>d\<close>, it does the same and ends in the same
  state up to that field. Every replay send is made with \<open>noTimeout\<close>, so the goroutine
  and its replay loop only return, block, or panic on a closed queue; they never end
  with the panic that wraps an error, because no replay send returns one. A replay send
  whose schedule names the timer stays blocked: the timer's case cannot be taken.
\<close>

theorem replay_never_times_out:
  "Subscribe_goroutine (g\<lparr>sendTimeout := d\<rparr>) topic s sc =
     (case Subscribe_goroutine g topic s sc of (r, g', sc') \<Rightarrow> (r, g'\<lparr>sendTimeout := d\<rparr>, sc'))
   \<and> fst (Subscribe_goroutine g topic s sc) \<in> {Returns (), Panics SendOnClosedChannel, Blocks}
   \<and> fst (Subscribe_replay g msgs s sc) \<in> {Returns (), Panics SendOnClosedChannel, Blocks}
   \<and> Subscribe_replay g (m # msgs) s (TimedOut # sc) = (Blocks, g, TimedOut # sc)"
proof -
  define old where "old = (if persistent g then index (messages g) topic else [])"
  have lg: "logs h (g\<lparr>sendTimeout := d\<rparr>) = (logs h g)\<lparr>sendTimeout := d\<rparr>" for h
    by (simp add: logs_def)
  have old': "(if persistent (g\<lparr>sendTimeout := d\<rparr>) then index (messages (g\<lparr>sendTimeout := d\<rparr>)) topic else []) = old"
    by (simp add: old_def)
  obtain r g2 sc2 where res: "Subscribe_replay (logs [RLock MessagesMutex] g) old s sc = (r, g2, sc2)"
    by (metis prod_cases3)
  have res': "Subscribe_replay ((logs [RLock MessagesMutex] g)\<lparr>sendTimeout := d\<rparr>) old s sc
      = (r, g2\<lparr>sendTimeout := d\<rparr>, sc2)"
    by (simp add: Subscribe_replay_sendTimeout_update res)
  have a: "Subscribe_goroutine (g\<lparr>sendTimeout := d\<rparr>) topic s sc =
     (case Subscribe_goroutine g topic s sc of (r, g', sc') \<Rightarrow> (r, g'\<lparr>sendTimeout := d\<rparr>, sc'))"
    unfolding Subscribe_goroutine_unfold old' old_def [symmetric] lg res res'
    by (cases r) (simp_all add: logs_def)
  have b: "fst (Subscribe_goroutine g topic s sc) \<in> {Returns (), Panics SendOnClosedChannel, Blocks}"
    unfolding Subscribe_goroutine_fst by (rule Subscribe_replay_outcomes)
  have c: "Subscribe_replay g (m # msgs) s (TimedOut # sc) = (Blocks, g, TimedOut # sc)"
    by simp
  from a b c Subscribe_replay_outcomes [of g msgs s sc] show ?thesis by blast
qed

theorem replay_never_times_out_witness:
  "Subscribe_goroutine (ex_retaining\<lparr>sendTimeout := 5\<rparr>) ''orders'' ex_sub [Received, Acked] =
     (case Subscribe_goroutine ex_retaining ''orders'' ex_sub [Received, Acked] of
        (r, g', sc') \<Rightarrow> (r, g'\<lparr>sendTimeout := 5\<rparr>, sc'))
   \<and> Subscribe_replay (ex_retaining\<lparr>sendTimeout := 5\<rparr>) (ex_msg # []) ex_sub (TimedOut # [])
       = (Blocks, ex_retaining\<lparr>sendTimeout := 5\<rparr>, TimedOut # [])"
  using replay_never_times_out [where g = ex_retaining and d = 5 and topic = "''orders''" and s = ex_sub
      and sc = "[Received, Acked]"]
    replay_never_times_out [where g = "ex_retaining\<lparr>sendTimeout := 5\<rparr>" and s = ex_sub and sc = "[]"
      and msgs = "[]" and m = ex_msg]
  by blast

subsection \<open>Publish after Close\<close>

lemma sendMessage_loop_closed_update:
  "sendMessage_loop (g\<lparr>closed := b\<rparr>) msg ss sc =
     (case sendMessage_loop g msg ss sc of (r, g', sc') \<Rightarrow> (r, g'\<lparr>closed := b\<rparr>, sc'))"
proof (induction ss arbitrary: g sc)
  case Nil
  then show ?case by simp
next
  case (Cons s ss)
  obtain r1 g1 sc1 where one: "sendMessageToSubscriber g msg s (sendTimeout g) sc = (r1, g1, sc1)"
    by (metis prod_cases3)
  then show ?case
    by (cases r1) (auto simp: sMTS_closed_update Cons.IH split: option.splits simp del: sendMessageToSubscriber.simps)
qed

lemma sendMessage_closed_update:
  "sendMessage (g\<lparr>closed := b\<rparr>) topic msg sc =
     (case sendMessage g topic msg sc of (r, g', sc') \<Rightarrow> (r, g'\<lparr>closed := b\<rparr>, sc'))"
proof (cases "map_of (subscribers g) topic")
  case None
  then show ?thesis by (simp add: sendMessage_def log_def Let_def)
next
  case (Some ss)
  have lg: "logs h (g\<lparr>closed := b\<rparr>) = (logs h g)\<lparr>closed := b\<rparr>" for h
    by (simp add: logs_def)
  obtain r1 g1 sc1 where l: "sendMessage_loop (logs [RLock SubscribersLock] g) msg ss sc = (r1, g1, sc1)"
    by (metis prod_cases3)
  have s1: "map_of (subscribers (g\<lparr>closed := b\<rparr>)) topic = Some ss" using Some by simp
  show ?thesis
    unfolding sendMessage_Some [OF s1] sendMessage_Some [OF Some] lg sendMessage_loop_closed_update l
    by (cases r1) (simp_all add: logs_def)
qed

lemma Publish_loop_closed_update:
  "Publish_loop (g\<lparr>closed := b\<rparr>) topic msgs sc =
     (case Publish_loop g topic msgs sc of (r, g', sc') \<Rightarrow> (r, g'\<lparr>closed := b\<rparr>, sc'))"
proof (induction msgs arbitrary: g sc)
  case Nil
  then show ?case by simp
next
  case (Cons m msgs)
  obtain r1 g1 sc1 where one: "sendMessage g topic m sc = (r1, g1, sc1)"
    by (metis prod_cases3)
  then show ?case
    by (cases r1) (auto simp: sendMessage_closed_update Cons.IH split: option.splits)
qed

lemma Publish_persist_closed_update:
  "Publish_persist (g\<lparr>closed := b\<rparr>) topic msgs = (Publish_persist g topic msgs)\<lparr>closed := b\<rparr>"
  by (simp add: Publish_persist_def log_def Let_def)

lemma Publish_messages:
  "persistent g \<Longrightarrow>
   index (messages (fst (snd (Publish g topic msgs sc)))) topic = index (messages g) topic @ msgs"
proof -
  assume p: "persistent g"
  obtain r g' sc' where res: "Publish_loop (Publish_persist g topic msgs) topic msgs sc = (r, g', sc')"
    by (metis prod_cases3)
  from Publish_loop_frame [OF res] obtain h where "g' = logs h (Publish_persist g topic msgs)" by blast
  with res Publish_persist_messages [OF p, of topic msgs] show ?thesis
    by (simp add: Publish_def)
qed

text \<open>
  Claim C10, as amended. \<^verbatim>\<open>Publish\<close> never reads the closed flag: with the flag
  cleared it does the same. On a persistent engine on which \<^verbatim>\<open>Close\<close> was called, under
  every schedule and whatever the outcome of the delivery, all messages of the call are
  appended to the topic's retention log. The call returns \<^verbatim>\<open>nil\<close> when the topic has
  no registered subscriber, and when every wait of the delivery takes the shutdown case.
\<close>

theorem Publish_ignores_closed_flag:
  assumes "closed g" and "persistent g"
  shows "Publish (g\<lparr>closed := False\<rparr>) topic msgs sc =
           (case Publish g topic msgs sc of (r, g', sc') \<Rightarrow> (r, g'\<lparr>closed := False\<rparr>, sc'))
       \<and> index (messages (fst (snd (Publish g topic msgs sc)))) topic = index (messages g) topic @ msgs
       \<and> (index (subscribers g) topic = [] \<longrightarrow> fst (Publish g topic msgs sc) = Returns None)
       \<and> fst (Publish g topic msgs
                 (replicate (length msgs * length (index (subscribers g) topic)) Closing @ sc))
           = Returns None"
proof -
  have a: "Publish (g\<lparr>closed := False\<rparr>) topic msgs sc =
           (case Publish g topic msgs sc of (r, g', sc') \<Rightarrow> (r, g'\<lparr>closed := False\<rparr>, sc'))"
    by (simp add: Publish_def Publish_persist_closed_update Publish_loop_closed_update)
  have b: "index (messages (fst (snd (Publish g topic msgs sc)))) topic = index (messages g) topic @ msgs"
    using assms(2) by (rule Publish_messages)
  have d: "fst (Publish g topic msgs
                 (replicate (length msgs * length (index (subscribers g) topic)) Closing @ sc))
           = Returns None" for g :: GoChannel and sc
    using Publish_loop_all_Closing [of "Publish_persist g topic msgs" topic msgs sc]
    by (simp add: Publish_def)
  have c: "fst (Publish g topic msgs sc) = Returns None" if "index (subscribers g) topic = []"
    using d [of g sc] that by simp
  from a b c d show ?thesis by blast
qed

lemma ex_closed_eq:
  "ex_closed =
    \<lparr>sendTimeout = 0, outputChannelBuffer = 1,
     subscribers = [(''orders'', [ex_sub])],
     closed = True, closing = True, persistent = True, messages = [],
     chans = [\<lparr>chan_cap = 1, chan_closed = True\<rparr>], goroutines = [],
     history = [RLock MessagesMutex, Lock SubscribersLock, RUnlock MessagesMutex,
        AppendSubscriber ''orders'' ex_sub, Unlock SubscribersLock,
        CloseClosing, Lock SubscribersLock, ChanClose 0, Unlock SubscribersLock]\<rparr>"
  by (simp add: ex_closed_def ex_engine_eq Close_def close_chan_def chan_at_def log_def ex_sub_def)

theorem Publish_ignores_closed_flag_witness:
  "closed ex_closed \<and> persistent ex_closed
   \<and> index (messages (fst (snd (Publish ex_closed ''orders'' [ex_msg, ex_msg2] [Received])))) ''orders''
        = [ex_msg, ex_msg2]
   \<and> index (subscribers ex_closed) ''payments'' = []
   \<and> fst (Publish ex_closed ''payments'' [ex_msg, ex_msg2] [Received]) = Returns None
   \<and> fst (Publish ex_closed ''orders'' [ex_msg, ex_msg2] [Closing, Closing]) = Returns None"
proof -
  have h1: "closed ex_closed" and h2: "persistent ex_closed"
    by (simp_all add: ex_closed_eq)
  have h3: "index (subscribers ex_closed) ''payments'' = []"
    by (simp add: ex_closed_eq index_def)
  have f: "index (messages ex_closed) ''orders'' = []" "index (subscribers ex_closed) ''orders'' = [ex_sub]"
    by (simp_all add: ex_closed_eq index_def)
  note c1 = Publish_ignores_closed_flag [OF h1 h2, where topic = "''orders''" and msgs = "[ex_msg, ex_msg2]"
      and sc = "[Received]"]
  note c2 = Publish_ignores_closed_flag [OF h1 h2, where topic = "''payments''" and msgs = "[ex_msg, ex_msg2]"
      and sc = "[Received]"]
  note c3 = Publish_ignores_closed_flag [OF h1 h2, where topic = "''orders''" and msgs = "[ex_msg, ex_msg2]"
      and sc = "[]"]
  from c1 have w1: "index (messages (fst (snd (Publish ex_closed ''orders'' [ex_msg, ex_msg2] [Received])))) ''orders''
        = index (messages ex_closed) ''orders'' @ [ex_msg, ex_msg2]" by blast
  from c2 h3 have w2: "fst (Publish ex_closed ''payments'' [ex_msg, ex_msg2] [Received]) = Returns None"
    by blast
  from c3 have w3: "fst (Publish ex_closed ''orders'' [ex_msg, ex_msg2]
      (replicate (length [ex_msg, ex_msg2] * length (index (subscribers ex_closed) ''orders'')) Closing @ []))
        = Returns None" by blast
  have r: "replicate (length [ex_msg, ex_msg2] * length [ex_sub]) Closing @ [] = [Closing, Closing]"
    by (simp add: numeral_2_eq_2)
  from h1 h2 h3 w1 w2 w3 show ?thesis by (simp only: f r) simp
qed

text \<open>
  Claim C10 as stated fails: on the persistent example engine, closed by \<^verbatim>\<open>Close\<close> while
  it has a subscriber, a publish call returns the timeout error when the first wait takes
  the timer's case, and panics when it takes the push, whose queue \<^verbatim>\<open>Close\<close> has closed.
\<close>

theorem Publish_after_Close_not_always_nil:
  "Close (ex_engine True 0) = (Returns None, ex_closed)
   \<and> closed ex_closed \<and> persistent ex_closed
   \<and> fst (Publish ex_closed ''orders'' [ex_msg] [TimedOut]) = Returns (Some (SendTimeouted ''m1'' 0))
   \<and> fst (Publish ex_closed ''orders'' [ex_msg] [Received]) = Panics SendOnClosedChannel"
proof -
  have "Close (ex_engine True 0) = (Returns None, ex_closed)"
    unfolding ex_closed_eq
    by (simp add: ex_engine_eq Close_def close_chan_def chan_at_def log_def ex_sub_def)
  moreover have "fst (Publish ex_closed ''orders'' [ex_msg] [TimedOut]) = Returns (Some (SendTimeouted ''m1'' 0))"
    by (simp add: ex_closed_eq Publish_def Publish_persist_def sendMessage_def log_def index_def
        noTimeout_def Copy_def ex_msg_def)
  moreover have "fst (Publish ex_closed ''orders'' [ex_msg] [Received]) = Panics SendOnClosedChannel"
    by (simp add: ex_closed_eq Publish_def Publish_persist_def sendMessage_def log_def index_def
        chan_at_def ex_sub_def)
  ultimately show ?thesis by (simp add: ex_closed_eq)
qed

subsection \<open>The locks of the subscription goroutine\<close>

lemma happens_before_append_notin:
  "a \<notin> set h \<Longrightarrow> happens_before a b (h @ h') = happens_before a b h'"
  by (induction h) auto

text \<open>
  Claim C1, as amended. In every run of the subscription goroutine that returns, the
  retention store's read lock is released after the registry's write lock has been taken
  and before the subscriber is appended to the topic's slice, not after; the registry's
  write lock is released after the append. Between taking the read lock and taking the
  write lock, the goroutine only pushes copies of the topic's retained messages.
\<close>

theorem registry_locked_before_retention_unlocked:
  assumes "Subscribe_goroutine g topic s sc = (Returns (), g', sc')"
  shows "happens_before (Lock SubscribersLock) (RUnlock MessagesMutex) (since g g')
       \<and> happens_before (RUnlock MessagesMutex) (AppendSubscriber topic s) (since g g')
       \<and> happens_before (AppendSubscriber topic s) (Unlock SubscribersLock) (since g g')
       \<and> \<not> happens_before (AppendSubscriber topic s) (RUnlock MessagesMutex) (since g g')
       \<and> (\<exists>replay.
             since g g' = [RLock MessagesMutex] @ replay @
                          [Lock SubscribersLock, RUnlock MessagesMutex, AppendSubscriber topic s,
                           Unlock SubscribersLock]
           \<and> (\<forall>a\<in>set replay. \<exists>m\<in>set (index (messages g) topic). a = ChanSend (outputChannel s) (Copy m)))
       \<and> index (subscribers g') topic = index (subscribers g) topic @ [s]"
proof -
  from Subscribe_goroutine_Returns [OF assms] obtain h where
    h: "\<forall>a\<in>set h. \<exists>m\<in>set (index (messages g) topic). a = ChanSend (outputChannel s) (Copy m)"
       "g' = logs ([RLock MessagesMutex] @ h @
                     [Lock SubscribersLock, RUnlock MessagesMutex, AppendSubscriber topic s,
                      Unlock SubscribersLock])
                    (g\<lparr>subscribers := AList.update topic (index (subscribers g) topic @ [s]) (subscribers g)\<rparr>)"
    by blast
  let ?tail = "[Lock SubscribersLock, RUnlock MessagesMutex, AppendSubscriber topic s, Unlock SubscribersLock]"
  from h(1) have n1: "Lock SubscribersLock \<notin> set (RLock MessagesMutex # h)"
    and n2: "RUnlock MessagesMutex \<notin> set (RLock MessagesMutex # h)"
    and n3: "AppendSubscriber topic s \<notin> set (RLock MessagesMutex # h)" by auto
  have sn: "since g g' = (RLock MessagesMutex # h) @ ?tail"
    using h(2) by (simp add: since_def)
  have b1: "happens_before (Lock SubscribersLock) (RUnlock MessagesMutex) (since g g')"
    unfolding sn happens_before_append_notin [OF n1] by simp
  have b2: "happens_before (RUnlock MessagesMutex) (AppendSubscriber topic s) (since g g')"
    unfolding sn happens_before_append_notin [OF n2] by simp
  have b3: "happens_before (AppendSubscriber topic s) (Unlock SubscribersLock) (since g g')"
    unfolding sn happens_before_append_notin [OF n3] by simp
  have b4: "\<not> happens_before (AppendSubscriber topic s) (RUnlock MessagesMutex) (since g g')"
    unfolding sn happens_before_append_notin [OF n3] by simp
  have reg: "index (subscribers g') topic = index (subscribers g) topic @ [s]"
    using assms by (rule Subscribe_goroutine_registers)
  from sn h(1) have ex: "\<exists>replay.
             since g g' = [RLock MessagesMutex] @ replay @ ?tail
           \<and> (\<forall>a\<in>set replay. \<exists>m\<in>set (index (messages g) topic). a = ChanSend (outputChannel s) (Copy m))"
    by auto
  from b1 b2 b3 b4 ex reg show ?thesis by blast
qed

lemma ex_subscribing_eq:
  "ex_subscribing =
    \<lparr>sendTimeout = - 1, outputChannelBuffer = 1, subscribers = [],
     closed = False, closing = False, persistent = True, messages = [(''orders'', [ex_msg])],
     chans = [\<lparr>chan_cap = 1, chan_closed = False\<rparr>], goroutines = [],
     history = [Lock MessagesMutex, AppendMessages ''orders'' [ex_msg], Unlock MessagesMutex,
                RLock SubscribersLock, RUnlock SubscribersLock]\<rparr>"
  by (simp add: ex_subscribing_def ex_retaining_eq Subscribe_def make_chan_def ex_maxCap_def)

lemma ex_subscribed_eq:
  "ex_subscribed =
    \<lparr>sendTimeout = - 1, outputChannelBuffer = 1, subscribers = [(''orders'', [ex_sub])],
     closed = False, closing = False, persistent = True, messages = [(''orders'', [ex_msg])],
     chans = [\<lparr>chan_cap = 1, chan_closed = False\<rparr>], goroutines = [],
     history = [Lock MessagesMutex, AppendMessages ''orders'' [ex_msg], Unlock MessagesMutex,
                RLock SubscribersLock, RUnlock SubscribersLock,
                RLock MessagesMutex, ChanSend 0 (Copy ex_msg), Lock SubscribersLock,
                RUnlock MessagesMutex, AppendSubscriber ''orders'' ex_sub, Unlock SubscribersLock]\<rparr>"
  by (simp add: ex_subscribed_def ex_retaining_eq Subscribe_def make_chan_def ex_maxCap_def run_goroutine_def
      Subscribe_goroutine_def log_def index_def chan_at_def ex_sub_def)

lemma ex_subscribing_run:
  "Subscribe_goroutine ex_subscribing ''orders'' ex_sub [Received, Acked] = (Returns (), ex_subscribed, [])"
  unfolding ex_subscribed_eq
  by (simp add: ex_subscribing_eq Subscribe_goroutine_def log_def index_def chan_at_def ex_sub_def)

theorem registry_locked_before_retention_unlocked_witness:
  "Subscribe_goroutine ex_subscribing ''orders'' ex_sub [Received, Acked] = (Returns (), ex_subscribed, [])
   \<and> happens_before (Lock SubscribersLock) (RUnlock MessagesMutex) (since ex_subscribing ex_subscribed)
   \<and> happens_before (AppendSubscriber ''orders'' ex_sub) (Unlock SubscribersLock) (since ex_subscribing ex_subscribed)
   \<and> index (subscribers ex_subscribed) ''orders'' = index (subscribers ex_subscribing) ''orders'' @ [ex_sub]"
  using registry_locked_before_retention_unlocked [OF ex_subscribing_run] ex_subscribing_run
  by blast

text \<open>
  Claim C1 as stated fails: in the run of the goroutine on the example engine, the
  retention lock is released before the subscriber is added to the registered set, and not
  after it.
\<close>

theorem retention_unlocked_before_subscriber_added:
  "Subscribe_goroutine ex_subscribing ''orders'' ex_sub [Received, Acked] = (Returns (), ex_subscribed, [])
   \<and> since ex_subscribing ex_subscribed =
        [RLock MessagesMutex, ChanSend 0 (Copy ex_msg), Lock SubscribersLock,
         RUnlock MessagesMutex, AppendSubscriber ''orders'' ex_sub, Unlock SubscribersLock]
   \<and> happens_before (RUnlock MessagesMutex) (AppendSubscriber ''orders'' ex_sub) (since ex_subscribing ex_subscribed)
   \<and> \<not> happens_before (AppendSubscriber ''orders'' ex_sub) (RUnlock MessagesMutex) (since ex_subscribing ex_subscribed)"
proof -
  have s: "since ex_subscribing ex_subscribed =
        [RLock MessagesMutex, ChanSend 0 (Copy ex_msg), Lock SubscribersLock,
         RUnlock MessagesMutex, AppendSubscriber ''orders'' ex_sub, Unlock SubscribersLock]"
    by (simp add: since_def ex_subscribing_eq ex_subscribed_eq)
  show ?thesis unfolding s using ex_subscribing_run by simp
qed

text \<open>
  The hand-over of the two locks in the goroutine does not by itself give "replayed or
  live, never both": \<^verbatim>\<open>Publish\<close> releases the retention lock before it takes the
  registry's read lock. In the race of \<open>ex_race\<close> the history respects both mutexes, and
  the subscriber is sent the message twice, once by the replay and once by the delivery.
\<close>

lemma replay_then_live_delivery:
  "history ex_race =
     [Lock MessagesMutex, AppendMessages ''orders'' [ex_msg], Unlock MessagesMutex,
      RLock MessagesMutex, ChanSend 0 (Copy ex_msg), Lock SubscribersLock,
      RUnlock MessagesMutex, AppendSubscriber ''orders'' ex_sub, Unlock SubscribersLock,
      RLock SubscribersLock, ChanSend 0 (Copy ex_msg), RUnlock SubscribersLock]
   \<and> legal (\<lambda>m. (0, False)) (history ex_race)
   \<and> length (filter (\<lambda>a. a = ChanSend 0 (Copy ex_msg)) (history ex_race)) = 2"
proof -
  have h: "history ex_race =
     [Lock MessagesMutex, AppendMessages ''orders'' [ex_msg], Unlock MessagesMutex,
      RLock MessagesMutex, ChanSend 0 (Copy ex_msg), Lock SubscribersLock,
      RUnlock MessagesMutex, AppendSubscriber ''orders'' ex_sub, Unlock SubscribersLock,
      RLock SubscribersLock, ChanSend 0 (Copy ex_msg), RUnlock SubscribersLock]"
    by (simp add: ex_race_def NewPersistentGoChannel_def Publish_persist_def Subscribe_def make_chan_def ex_maxCap_def
        run_goroutine_def Subscribe_goroutine_def sendMessage_def log_def index_def chan_at_def ex_sub_def)
  show ?thesis unfolding h by simp
qed

end
